theory Spec2Isabelle
  imports Complex_Main "HOL-Library.Log_Nat" "HOL-Library.Product_Lexorder"
begin

section \<open>JavaScript values used by the engine\<close>

text \<open>
  A JavaScript number that holds an integer, or \<open>NaN\<close> (the value \<open>None\<close>).
  \<open>parseInt\<close> is the only producer of \<open>NaN\<close> in the Camelot module; arithmetic and
  comparison propagate it as ECMAScript does: every operation on \<open>NaN\<close> gives \<open>NaN\<close>,
  and \<open>===\<close> with \<open>NaN\<close> on either side is false.
\<close>

type_synonym jsint = "int option"

definition js_sub :: "jsint \<Rightarrow> jsint \<Rightarrow> jsint" where
  "js_sub a b = (case (a, b) of (Some x, Some y) \<Rightarrow> Some (x - y) | _ \<Rightarrow> None)"

definition js_add :: "jsint \<Rightarrow> jsint \<Rightarrow> jsint" where
  "js_add a b = (case (a, b) of (Some x, Some y) \<Rightarrow> Some (x + y) | _ \<Rightarrow> None)"

definition Math_abs :: "jsint \<Rightarrow> jsint" where
  "Math_abs a = (case a of Some x \<Rightarrow> Some \<bar>x\<bar> | None \<Rightarrow> None)"

definition Math_min :: "jsint \<Rightarrow> jsint \<Rightarrow> jsint" where
  "Math_min a b = (case (a, b) of (Some x, Some y) \<Rightarrow> Some (min x y) | _ \<Rightarrow> None)"

definition js_eq :: "jsint \<Rightarrow> jsint \<Rightarrow> bool" where
  "js_eq a b = (case (a, b) of (Some x, Some y) \<Rightarrow> x = y | _ \<Rightarrow> False)"

text \<open>
  Strings are lists of code units below 256. \<open>is_whitespace\<close> is the ECMAScript
  WhiteSpace and LineTerminator set in that range (tab, LF, VT, FF, CR, space, NBSP),
  which is what \<open>String.prototype.trim\<close> and \<open>parseInt\<close> strip.
\<close>

definition is_whitespace :: "char \<Rightarrow> bool" where
  "is_whitespace c = ((of_char c :: nat) \<in> {9, 10, 11, 12, 13, 32, 160})"

definition is_digit :: "char \<Rightarrow> bool" where
  "is_digit c = (48 \<le> (of_char c :: nat) \<and> (of_char c :: nat) \<le> 57)"

definition digit_value :: "char \<Rightarrow> int" where
  "digit_value c = int (of_char c) - 48"

text \<open>
  \<open>parseInt(s, 10)\<close>: skip leading white space, read an optional sign, then the longest
  prefix of decimal digits; \<open>NaN\<close> when there is no digit.
\<close>

definition parseInt :: "string \<Rightarrow> jsint" where
  "parseInt s =
     (let t = dropWhile is_whitespace s;
          neg = (case t of [] \<Rightarrow> False | c # _ \<Rightarrow> c = CHR ''-'');
          u = (case t of [] \<Rightarrow> [] | c # r \<Rightarrow> if c = CHR ''+'' \<or> c = CHR ''-'' then r else t);
          z = takeWhile is_digit u
      in if z = [] then None
         else Some ((if neg then - 1 else 1) * foldl (\<lambda>acc c. 10 * acc + digit_value c) 0 z))"

text \<open>
  \<open>s.slice(start, end)\<close>: a negative index counts from the end of the string, and every
  index is clamped to the string.
\<close>

definition slice_index :: "nat \<Rightarrow> int \<Rightarrow> nat" where
  "slice_index len i = (if i < 0 then nat (max (int len + i) 0) else min (nat i) len)"

definition slice :: "string \<Rightarrow> int \<Rightarrow> int \<Rightarrow> string" where
  "slice s start end =
     (let from = slice_index (length s) start; to = slice_index (length s) end
      in take (to - from) (drop from s))"

definition slice_from :: "string \<Rightarrow> int \<Rightarrow> string" where
  "slice_from s start = drop (slice_index (length s) start) s"

section \<open>JavaScript numbers\<close>

text \<open>
  A tempo, a tempo difference and a path score are JavaScript numbers: IEEE 754 binary64
  values. A number is a finite value, one of the two infinities, or \<open>NaN\<close>. A finite
  value is modelled by the real number it denotes. The two zeros are identified: the
  engine never divides, and it reads a difference only through \<open>Math.abs\<close> and through
  comparisons, which do not tell the zeros apart. (The Camelot module meets only the
  integers that \<open>parseInt\<close> yields; they keep the model \<open>jsint\<close> above.)
\<close>

datatype number = Num real | Infinity | NegInfinity | NaN

text \<open>
  Rounding to the nearest binary64 value, ties to the even significand. For a positive
  \<open>x\<close>, \<open>exponent x\<close> is the integer \<open>e\<close> with \<open>2 ^ e \<le> x < 2 ^ (e + 1)\<close>, and \<open>ulp x\<close>
  is the spacing of the binary64 values around \<open>x\<close>: \<open>2 ^ (e - 52)\<close>, and \<open>2 ^ (- 1074)\<close>
  in the subnormal range. A magnitude that rounds to \<open>2 ^ 1024\<close> or more, that is to a
  value of exponent 1024 or more, overflows to an infinity.
\<close>

definition round_half_even :: "real \<Rightarrow> int" where
  "round_half_even x =
     (let f = \<lfloor>x\<rfloor>
      in if x - of_int f < 1 / 2 then f
         else if x - of_int f > 1 / 2 then f + 1
         else if even f then f else f + 1)"

definition exponent :: "real \<Rightarrow> int" where
  "exponent x =
     (if 1 \<le> x then bitlen \<lfloor>x\<rfloor> - 1
      else (let f = bitlen \<lfloor>1 / x\<rfloor> - 1
            in if x = 2 powi (- f) then - f else - f - 1))"

definition ulp :: "real \<Rightarrow> real" where
  "ulp x = 2 powi (max (exponent x) (- 1022) - 52)"

definition round_magnitude :: "real \<Rightarrow> real" where
  "round_magnitude x = of_int (round_half_even (x / ulp x)) * ulp x"

definition round_double :: "real \<Rightarrow> number" where
  "round_double x =
     (if x = 0 then Num 0
      else
        (let r = round_magnitude \<bar>x\<bar>
         in if 1024 \<le> exponent r then (if x < 0 then NegInfinity else Infinity)
            else Num (if x < 0 then - r else r)))"

text \<open>
  The operators \<open>-\<close>, \<open>+\<close> and \<open>*\<close> on numbers: the exact result, rounded. \<open>NaN\<close>
  propagates; the difference of equal infinities, the sum of opposite infinities and the
  product of an infinity with zero are \<open>NaN\<close>.
\<close>

fun number_sub :: "number \<Rightarrow> number \<Rightarrow> number" where
  "number_sub (Num x) (Num y) = round_double (x - y)"
| "number_sub NaN b = NaN"
| "number_sub a NaN = NaN"
| "number_sub Infinity Infinity = NaN"
| "number_sub NegInfinity NegInfinity = NaN"
| "number_sub Infinity b = Infinity"
| "number_sub NegInfinity b = NegInfinity"
| "number_sub (Num x) Infinity = NegInfinity"
| "number_sub (Num x) NegInfinity = Infinity"

fun number_add :: "number \<Rightarrow> number \<Rightarrow> number" where
  "number_add (Num x) (Num y) = round_double (x + y)"
| "number_add NaN b = NaN"
| "number_add a NaN = NaN"
| "number_add Infinity NegInfinity = NaN"
| "number_add NegInfinity Infinity = NaN"
| "number_add Infinity b = Infinity"
| "number_add NegInfinity b = NegInfinity"
| "number_add (Num x) Infinity = Infinity"
| "number_add (Num x) NegInfinity = NegInfinity"

fun number_sign :: "number \<Rightarrow> int" where
  "number_sign (Num x) = (if x < 0 then - 1 else if x = 0 then 0 else 1)"
| "number_sign Infinity = 1"
| "number_sign NegInfinity = - 1"
| "number_sign NaN = 0"

fun number_mul :: "number \<Rightarrow> number \<Rightarrow> number" where
  "number_mul (Num x) (Num y) = round_double (x * y)"
| "number_mul NaN b = NaN"
| "number_mul a NaN = NaN"
| "number_mul a b =
     (if number_sign a * number_sign b = 0 then NaN
      else if number_sign a * number_sign b < 0 then NegInfinity else Infinity)"

fun number_abs :: "number \<Rightarrow> number" where
  "number_abs (Num x) = Num \<bar>x\<bar>"
| "number_abs Infinity = Infinity"
| "number_abs NegInfinity = Infinity"
| "number_abs NaN = NaN"

text \<open>
  The comparisons \<open><\<close> and \<open>>\<close>: false whenever an operand is \<open>NaN\<close>. \<open>number_le\<close> is
  \<open><=\<close>, which the engine does not use; the specification does.
\<close>

fun number_less :: "number \<Rightarrow> number \<Rightarrow> bool" where
  "number_less (Num x) (Num y) = (x < y)"
| "number_less NaN b = False"
| "number_less a NaN = False"
| "number_less a NegInfinity = False"
| "number_less Infinity b = False"
| "number_less NegInfinity b = True"
| "number_less (Num x) Infinity = True"

definition number_greater :: "number \<Rightarrow> number \<Rightarrow> bool" where
  "number_greater a b = number_less b a"

definition number_le :: "number \<Rightarrow> number \<Rightarrow> bool" where
  "number_le a b = (number_less a b \<or> (a = b \<and> a \<noteq> NaN))"

text \<open>\<open>Number.isFinite\<close>, and the real number a finite value denotes.\<close>

fun isFinite :: "number \<Rightarrow> bool" where
  "isFinite (Num x) = True"
| "isFinite a = False"

fun number_real :: "number \<Rightarrow> real" where
  "number_real (Num x) = x"
| "number_real a = 0"

section \<open>Camelot wheel\<close>

text \<open>The type \<open>CamelotKey\<close> is a union of 24 string literals; \<open>literal\<close> is the string itself.\<close>

datatype CamelotKey =
  K1A | K1B | K2A | K2B | K3A | K3B | K4A | K4B | K5A | K5B | K6A | K6B
  | K7A | K7B | K8A | K8B | K9A | K9B | K10A | K10B | K11A | K11B | K12A | K12B

fun literal :: "CamelotKey \<Rightarrow> string" where
  "literal K1A = ''1A''" | "literal K1B = ''1B''"
| "literal K2A = ''2A''" | "literal K2B = ''2B''"
| "literal K3A = ''3A''" | "literal K3B = ''3B''"
| "literal K4A = ''4A''" | "literal K4B = ''4B''"
| "literal K5A = ''5A''" | "literal K5B = ''5B''"
| "literal K6A = ''6A''" | "literal K6B = ''6B''"
| "literal K7A = ''7A''" | "literal K7B = ''7B''"
| "literal K8A = ''8A''" | "literal K8B = ''8B''"
| "literal K9A = ''9A''" | "literal K9B = ''9B''"
| "literal K10A = ''10A''" | "literal K10B = ''10B''"
| "literal K11A = ''11A''" | "literal K11B = ''11B''"
| "literal K12A = ''12A''" | "literal K12B = ''12B''"

definition VALID_CAMELOT_KEYS :: "CamelotKey list" where
  "VALID_CAMELOT_KEYS =
     [K1A, K1B, K2A, K2B, K3A, K3B, K4A, K4B, K5A, K5B, K6A, K6B,
      K7A, K7B, K8A, K8B, K9A, K9B, K10A, K10B, K11A, K11B, K12A, K12B]"

record ParsedKey =
  number :: jsint
  letter :: string

definition parseCamelotKey :: "CamelotKey \<Rightarrow> ParsedKey" where
  "parseCamelotKey key =
     \<lparr>number = parseInt (slice (literal key) 0 (- 1)),
      letter = slice_from (literal key) (- 1)\<rparr>"

definition circularDistance :: "jsint \<Rightarrow> jsint \<Rightarrow> jsint" where
  "circularDistance a b = (let diff = Math_abs (js_sub a b) in Math_min diff (js_sub (Some 12) diff))"

definition getCamelotDistance :: "CamelotKey \<Rightarrow> CamelotKey \<Rightarrow> jsint" where
  "getCamelotDistance keyA keyB =
     (let a = parseCamelotKey keyA;
          b = parseCamelotKey keyB;
          numberDistance = circularDistance (number a) (number b);
          letterDifferent = (letter a \<noteq> letter b)
      in if js_eq numberDistance (Some 0) \<and> letterDifferent then Some 1
         else if letterDifferent then js_add numberDistance (Some 1)
         else numberDistance)"

datatype KeyCompatibilityType = Same | Adjacent | Relative | Incompatible

definition getKeyCompatibilityType :: "CamelotKey \<Rightarrow> CamelotKey \<Rightarrow> KeyCompatibilityType" where
  "getKeyCompatibilityType keyA keyB =
     (let a = parseCamelotKey keyA;
          b = parseCamelotKey keyB
      in if js_eq (number a) (number b) \<and> letter a = letter b then Same
         else if js_eq (number a) (number b) \<and> letter a \<noteq> letter b then Relative
         else if js_eq (circularDistance (number a) (number b)) (Some 1) \<and> letter a = letter b
           then Adjacent
         else Incompatible)"

definition isCamelotCompatible :: "CamelotKey \<Rightarrow> CamelotKey \<Rightarrow> bool" where
  "isCamelotCompatible keyA keyB = (getKeyCompatibilityType keyA keyB \<noteq> Incompatible)"

subsection \<open>Key labels\<close>

definition CAMELOT_MAP :: "(string \<times> CamelotKey) list" where
  "CAMELOT_MAP =
     [(''G# minor'', K1A), (''Ab minor'', K1A), (''G#m'', K1A), (''Abm'', K1A),
      (''B major'', K1B), (''B'', K1B), (''D# minor'', K2A), (''Eb minor'', K2A),
      (''D#m'', K2A), (''Ebm'', K2A), (''F# major'', K2B), (''Gb major'', K2B),
      (''F#'', K2B), (''Gb'', K2B), (''A# minor'', K3A), (''Bb minor'', K3A),
      (''A#m'', K3A), (''Bbm'', K3A), (''C# major'', K3B), (''Db major'', K3B),
      (''C#'', K3B), (''Db'', K3B), (''F minor'', K4A), (''Fm'', K4A),
      (''G# major'', K4B), (''Ab major'', K4B), (''G#'', K4B), (''Ab'', K4B),
      (''C minor'', K5A), (''Cm'', K5A), (''D# major'', K5B), (''Eb major'', K5B),
      (''D#'', K5B), (''Eb'', K5B), (''G minor'', K6A), (''Gm'', K6A),
      (''A# major'', K6B), (''Bb major'', K6B), (''A#'', K6B), (''Bb'', K6B),
      (''D minor'', K7A), (''Dm'', K7A), (''F major'', K7B), (''F'', K7B),
      (''A minor'', K8A), (''Am'', K8A), (''C major'', K8B), (''C'', K8B),
      (''E minor'', K9A), (''Em'', K9A), (''G major'', K9B), (''G'', K9B),
      (''B minor'', K10A), (''Bm'', K10A), (''D major'', K10B), (''D'', K10B),
      (''F# minor'', K11A), (''Gb minor'', K11A), (''F#m'', K11A), (''Gbm'', K11A),
      (''A major'', K11B), (''A'', K11B), (''C# minor'', K12A), (''Db minor'', K12A),
      (''C#m'', K12A), (''Dbm'', K12A), (''E major'', K12B), (''E'', K12B)]"

text \<open>
  \<open>CAMELOT_MAP\<close> is an object literal, so \<open>CAMELOT_MAP[key]\<close> finds the table's own
  properties and, failing that, the members every object inherits from
  \<open>Object.prototype\<close>. An inherited member is a function (or, for \<open>__proto__\<close>, the
  prototype object): a truthy value that is not a Camelot key.
\<close>

datatype property_value = Key CamelotKey | Inherited string

definition Object_prototype_names :: "string list" where
  "Object_prototype_names =
     [''constructor'', ''hasOwnProperty'', ''isPrototypeOf'', ''propertyIsEnumerable'',
      ''toLocaleString'', ''toString'', ''valueOf'', ''__proto__'',
      ''__defineGetter__'', ''__defineSetter__'', ''__lookupGetter__'', ''__lookupSetter__'']"

definition property_get :: "string \<Rightarrow> property_value option" where
  "property_get name =
     (case map_of CAMELOT_MAP name of
        Some camelot \<Rightarrow> Some (Key camelot)
      | None \<Rightarrow> if name \<in> set Object_prototype_names then Some (Inherited name) else None)"

definition trim :: "string \<Rightarrow> string" where
  "trim s = rev (dropWhile is_whitespace (rev (dropWhile is_whitespace s)))"

definition toLowerCase_char :: "char \<Rightarrow> char" where
  "toLowerCase_char c =
     (let n = (of_char c :: nat)
      in if (65 \<le> n \<and> n \<le> 90) \<or> (192 \<le> n \<and> n \<le> 222 \<and> n \<noteq> 215)
         then char_of (n + 32) else c)"

definition toLowerCase :: "string \<Rightarrow> string" where
  "toLowerCase s = map toLowerCase_char s"

text \<open>
  The result is \<open>None\<close> for \<open>null\<close>. Every value of the table and every inherited member
  is truthy, so the two \<open>if (...) return\<close> tests succeed whenever the property exists.
\<close>

definition musicalKeyToCamelot :: "string \<Rightarrow> property_value option" where
  "musicalKeyToCamelot key =
     (case property_get key of
        Some direct \<Rightarrow> Some direct
      | None \<Rightarrow>
          (let normalized = trim key
           in case property_get normalized of
                Some lookup \<Rightarrow> Some lookup
              | None \<Rightarrow>
                  (let lower = toLowerCase normalized
                   in case find (\<lambda>(mapKey, camelot). toLowerCase mapKey = lower) CAMELOT_MAP of
                        Some (mapKey, camelot) \<Rightarrow> Some (Key camelot)
                      | None \<Rightarrow> None)))"

subsection \<open>The key position of the specification\<close>

text \<open>
  The specification speaks of a key position: a number from 1 to 12 and one of two
  letters. \<open>position\<close> gives the position each of the 24 keys stands for, and
  \<open>spec_distance\<close> is the distance formula in the specification's words.
\<close>

fun position :: "CamelotKey \<Rightarrow> int \<times> char" where
  "position K1A = (1, CHR ''A'')" | "position K1B = (1, CHR ''B'')"
| "position K2A = (2, CHR ''A'')" | "position K2B = (2, CHR ''B'')"
| "position K3A = (3, CHR ''A'')" | "position K3B = (3, CHR ''B'')"
| "position K4A = (4, CHR ''A'')" | "position K4B = (4, CHR ''B'')"
| "position K5A = (5, CHR ''A'')" | "position K5B = (5, CHR ''B'')"
| "position K6A = (6, CHR ''A'')" | "position K6B = (6, CHR ''B'')"
| "position K7A = (7, CHR ''A'')" | "position K7B = (7, CHR ''B'')"
| "position K8A = (8, CHR ''A'')" | "position K8B = (8, CHR ''B'')"
| "position K9A = (9, CHR ''A'')" | "position K9B = (9, CHR ''B'')"
| "position K10A = (10, CHR ''A'')" | "position K10B = (10, CHR ''B'')"
| "position K11A = (11, CHR ''A'')" | "position K11B = (11, CHR ''B'')"
| "position K12A = (12, CHR ''A'')" | "position K12B = (12, CHR ''B'')"

definition ring_distance :: "CamelotKey \<Rightarrow> CamelotKey \<Rightarrow> int" where
  "ring_distance A B =
     min \<bar>fst (position A) - fst (position B)\<bar> (12 - \<bar>fst (position A) - fst (position B)\<bar>)"

definition spec_distance :: "CamelotKey \<Rightarrow> CamelotKey \<Rightarrow> int" where
  "spec_distance A B =
     (let d = ring_distance A B
      in if d = 0 \<and> snd (position A) \<noteq> snd (position B) then 1
         else if snd (position A) \<noteq> snd (position B) \<and> d \<noteq> 0 then d + 1
         else d)"

section \<open>Tracks and transitions\<close>

text \<open>
  A track as the engine sees it. The \<open>file\<close> field of the source (a browser \<open>File\<close>
  handle) is inert to the engine and left out; \<open>null\<close> is \<open>None\<close>. The fields of type
  \<open>number | null\<close> hold any number, \<open>NaN\<close> and the infinities included.
\<close>

datatype AnalysisStatus = Pending | Analyzing | Complete | Error

datatype MixStatus = NoMix | Mixed | Orphan

record Track =
  id_track :: string
  filename :: string
  bpm :: "number option"
  key :: "string option"
  camelotKey :: "CamelotKey option"
  duration :: "number option"
  status :: AnalysisStatus
  errorMessage :: "string option"
  mixStatus :: MixStatus
  mixOrder :: "nat option"

datatype TransitionQuality = Excellent | Good | Fair | Poor

record Transition =
  fromTrack :: Track
  toTrack :: Track
  bpmDifference :: number
  keyCompatibility :: KeyCompatibilityType
  quality :: TransitionQuality

record OrderingResult =
  orderedTracks :: "Track list"
  orphanTracks :: "Track list"
  transitions :: "Transition list"
  isComplete :: bool

definition MAX_BPM_DIFFERENCE :: number where
  "MAX_BPM_DIFFERENCE = Num 20"

definition isTrackAnalyzed :: "Track \<Rightarrow> bool" where
  "isTrackAnalyzed track = (bpm track \<noteq> None \<and> camelotKey track \<noteq> None)"

text \<open>
  \<open>Math.abs(a.bpm! - b.bpm!)\<close>. The non-null assertion has no effect at run time, and
  \<open>null\<close> in a subtraction is the number 0.
\<close>

definition bpm_number :: "Track \<Rightarrow> number" where
  "bpm_number track = (case bpm track of Some b \<Rightarrow> b | None \<Rightarrow> Num 0)"

definition abs_bpm_diff :: "Track \<Rightarrow> Track \<Rightarrow> number" where
  "abs_bpm_diff a b = number_abs (number_sub (bpm_number a) (bpm_number b))"

text \<open>
  The Camelot functions are only called behind the \<open>isTrackAnalyzed\<close> guard, where both
  keys are present; the \<open>None\<close> branch of the \<open>case\<close> below is never taken.
\<close>

definition isTransitionCompatible :: "Track \<Rightarrow> Track \<Rightarrow> bool" where
  "isTransitionCompatible trackA trackB =
     (if \<not> isTrackAnalyzed trackA \<or> \<not> isTrackAnalyzed trackB then False
      else if number_greater (abs_bpm_diff trackA trackB) MAX_BPM_DIFFERENCE then False
      else (case (camelotKey trackA, camelotKey trackB) of
              (Some ka, Some kb) \<Rightarrow> isCamelotCompatible ka kb
            | _ \<Rightarrow> False))"

definition calculateTransitionQuality :: "Track \<Rightarrow> Track \<Rightarrow> TransitionQuality" where
  "calculateTransitionQuality trackA trackB =
     (if \<not> isTrackAnalyzed trackA \<or> \<not> isTrackAnalyzed trackB then Poor
      else
        (let bpmDiff = abs_bpm_diff trackA trackB;
             keyCompat = (case (camelotKey trackA, camelotKey trackB) of
                            (Some ka, Some kb) \<Rightarrow> getKeyCompatibilityType ka kb
                          | _ \<Rightarrow> Incompatible)
         in if keyCompat = Incompatible then Poor
            else if number_greater bpmDiff MAX_BPM_DIFFERENCE then Poor
            else if number_less bpmDiff (Num 5) then Excellent
            else if number_less bpmDiff (Num 10) then Good
            else Fair))"

definition createTransition :: "Track \<Rightarrow> Track \<Rightarrow> Transition" where
  "createTransition from to =
     \<lparr>fromTrack = from,
      toTrack = to,
      bpmDifference =
        (if isTrackAnalyzed from \<and> isTrackAnalyzed to then abs_bpm_diff from to
         else Infinity),
      keyCompatibility =
        (if isTrackAnalyzed from \<and> isTrackAnalyzed to
         then (case (camelotKey from, camelotKey to) of
                 (Some ka, Some kb) \<Rightarrow> getKeyCompatibilityType ka kb
               | _ \<Rightarrow> Incompatible)
         else Incompatible),
      quality = calculateTransitionQuality from to\<rparr>"

section \<open>Ordering engine\<close>

text \<open>
  A JavaScript \<open>Set\<close> is modelled by the list of its members in insertion order, without
  duplicates: iteration follows insertion order, \<open>add\<close> of a member is ignored, \<open>delete\<close>
  removes the member.
\<close>

definition Set_add :: "'a list \<Rightarrow> 'a \<Rightarrow> 'a list" where
  "Set_add s x = (if x \<in> set s then s else s @ [x])"

definition Set_new :: "'a list \<Rightarrow> 'a list" where
  "Set_new xs = foldl Set_add [] xs"

definition Set_delete :: "'a list \<Rightarrow> 'a \<Rightarrow> 'a list" where
  "Set_delete s x = removeAll x s"

text \<open>
  The selection loop of \<open>greedyPath\<close>: \<open>best\<close> starts at the first candidate and is
  replaced by a later candidate only when \<open>diff < bestDiff\<close> holds of the two numbers.
\<close>

definition pick_step :: "Track \<Rightarrow> Track \<times> number \<Rightarrow> Track \<Rightarrow> Track \<times> number" where
  "pick_step current acc candidate =
     (let diff = abs_bpm_diff current candidate
      in if number_less diff (snd acc) then (candidate, diff) else acc)"

definition pick_best :: "Track \<Rightarrow> Track \<Rightarrow> Track list \<Rightarrow> Track" where
  "pick_best current first rest =
     fst (foldl (pick_step current) (first, abs_bpm_diff current first) rest)"

lemma pick_fold_member:
  "fst (foldl (pick_step current) acc rest) \<in> insert (fst acc) (set rest)"
proof (induction rest arbitrary: acc)
  case Nil
  show ?case by simp
next
  case (Cons x xs)
  have step: "fst (pick_step current acc x) = fst acc \<or> fst (pick_step current acc x) = x"
    by (simp add: pick_step_def Let_def)
  from Cons [of "pick_step current acc x"] step show ?case
    by auto
qed

lemma pick_best_member: "pick_best current first rest \<in> set (first # rest)"
  using pick_fold_member [of current "(first, abs_bpm_diff current first)" rest]
  by (simp add: pick_best_def)

function greedy_loop :: "Track list \<Rightarrow> Track list \<Rightarrow> Track \<Rightarrow> Track list" where
  "greedy_loop path remaining current =
     (if remaining = [] then path
      else (case filter (isTransitionCompatible current) remaining of
              [] \<Rightarrow> path
            | first # rest \<Rightarrow>
                (let best = pick_best current first rest
                 in greedy_loop (path @ [best]) (Set_delete remaining best) best)))"
  by pat_completeness auto
termination
proof (relation "measure (\<lambda>(path, remaining, current). length remaining)")
  show "wf (measure (\<lambda>(path, remaining, current). length remaining))" by simp
next
  fix path remaining :: "Track list" and current first rest best
  assume cands: "filter (isTransitionCompatible current) remaining = first # rest"
    and best: "best = pick_best current first rest"
  have "best \<in> set (filter (isTransitionCompatible current) remaining)"
    unfolding cands best by (rule pick_best_member)
  then have "best \<in> set remaining" by simp
  then have "length (removeAll best remaining) < length remaining"
    by (simp add: length_removeAll_less)
  then show "((path @ [best], Set_delete remaining best, best), (path, remaining, current))
      \<in> measure (\<lambda>(path, remaining, current). length remaining)"
    by (simp add: Set_delete_def)
qed

definition greedyPath :: "Track \<Rightarrow> Track list \<Rightarrow> Track list" where
  "greedyPath startTrack allTracks =
     greedy_loop [startTrack]
       (Set_new (filter (\<lambda>t. id_track t \<noteq> id_track startTrack) allTracks)) startTrack"

text \<open>
  The body of the loop of \<open>calculatePathScore\<close>, at index \<open>i\<close>: \<open>score += diff * diff\<close>,
  a rounded product added to the running score by a rounded sum.
\<close>

definition score_step :: "Track list \<Rightarrow> number \<Rightarrow> nat \<Rightarrow> number" where
  "score_step path score i =
     (let diff = abs_bpm_diff (path ! i) (path ! (i + 1))
      in number_add score (number_mul diff diff))"

definition calculatePathScore :: "Track list \<Rightarrow> number" where
  "calculatePathScore path =
     (if length path < 2 then Num 0
      else foldl (score_step path) (Num 0) [0 ..< length path - 1])"

record SearchState =
  bestCompletePath :: "Track list option"
  bestCompleteScore :: number
  bestPartialPath :: "Track list"

definition search_step :: "Track list \<Rightarrow> SearchState \<Rightarrow> Track \<Rightarrow> SearchState" where
  "search_step analyzedTracks st startTrack =
     (let path = greedyPath startTrack analyzedTracks
      in if length path = length analyzedTracks then
           (let score = calculatePathScore path
            in if number_less score (bestCompleteScore st)
               then st\<lparr>bestCompleteScore := score, bestCompletePath := Some path\<rparr>
               else st)
         else if length path > length (bestPartialPath st) then st\<lparr>bestPartialPath := path\<rparr>
         else if length path = length (bestPartialPath st) \<and> length path > 0 then
           (let newScore = calculatePathScore path;
                oldScore = calculatePathScore (bestPartialPath st)
            in if number_less newScore oldScore then st\<lparr>bestPartialPath := path\<rparr> else st)
         else st)"

definition search :: "Track list \<Rightarrow> SearchState" where
  "search analyzedTracks =
     foldl (search_step analyzedTracks)
       \<lparr>bestCompletePath = None, bestCompleteScore = Infinity, bestPartialPath = []\<rparr>
       analyzedTracks"

definition build_transitions :: "Track list \<Rightarrow> Transition list" where
  "build_transitions ordered =
     map (\<lambda>i. createTransition (ordered ! i) (ordered ! (i + 1))) [0 ..< length ordered - 1]"

definition findOptimalOrder :: "Track list \<Rightarrow> OrderingResult" where
  "findOptimalOrder tracks =
     (let analyzedTracks = filter isTrackAnalyzed tracks;
          unanalyzedTracks = filter (\<lambda>t. \<not> isTrackAnalyzed t) tracks
      in if length analyzedTracks = 0 then
           \<lparr>orderedTracks = [], orphanTracks = unanalyzedTracks, transitions = [],
            isComplete = (length unanalyzedTracks = 0)\<rparr>
         else if length analyzedTracks = 1 then
           \<lparr>orderedTracks = analyzedTracks, orphanTracks = unanalyzedTracks, transitions = [],
            isComplete = (length unanalyzedTracks = 0)\<rparr>
         else
           (let st = search analyzedTracks;
                ordered = (case bestCompletePath st of Some p \<Rightarrow> p | None \<Rightarrow> bestPartialPath st);
                orderedIds = set (map id_track ordered);
                orphans = filter (\<lambda>t. id_track t \<notin> orderedIds) analyzedTracks @ unanalyzedTracks
            in \<lparr>orderedTracks = ordered, orphanTracks = orphans,
                transitions = build_transitions ordered,
                isComplete = (bestCompletePath st \<noteq> None \<and> length unanalyzedTracks = 0)\<rparr>))"

section \<open>Compatible groups\<close>

text \<open>
  One pass of the inner \<open>for\<close> loop of \<open>findCompatibleGroups\<close> over the analyzed tracks.
  The state is the group, the set of assigned ids and the \<open>changed\<close> flag.
\<close>

definition group_step ::
  "Track list \<times> string set \<times> bool \<Rightarrow> Track \<Rightarrow> Track list \<times> string set \<times> bool" where
  "group_step st candidate =
     (case st of (grp, assigned, changed) \<Rightarrow>
        if id_track candidate \<in> assigned then st
        else if list_ex (\<lambda>groupTrack. isTransitionCompatible groupTrack candidate) grp
          then (grp @ [candidate], insert (id_track candidate) assigned, True)
          else st)"

definition group_pass ::
  "Track list \<Rightarrow> Track list \<Rightarrow> string set \<Rightarrow> Track list \<times> string set \<times> bool" where
  "group_pass analyzedTracks grp assigned =
     foldl group_step (grp, assigned, False) analyzedTracks"

definition unassigned :: "Track list \<Rightarrow> string set \<Rightarrow> Track list" where
  "unassigned analyzedTracks assigned = filter (\<lambda>t. id_track t \<notin> assigned) analyzedTracks"

lemma group_step_assigned_mono: "fst (snd st) \<subseteq> fst (snd (group_step st c))"
  by (cases st) (auto simp: group_step_def)

lemma foldl_group_step_assigned_mono: "fst (snd st) \<subseteq> fst (snd (foldl group_step st cs))"
proof (induction cs arbitrary: st)
  case Nil
  show ?case by simp
next
  case (Cons c cs)
  from group_step_assigned_mono [of st c] Cons [of "group_step st c"] show ?case
    by auto
qed

lemma foldl_group_step_changed:
  "snd (snd (foldl group_step st cs)) \<Longrightarrow> \<not> snd (snd st) \<Longrightarrow>
   \<exists>c \<in> set cs. id_track c \<notin> fst (snd st) \<and> id_track c \<in> fst (snd (foldl group_step st cs))"
proof (induction cs arbitrary: st)
  case Nil
  then show ?case by simp
next
  case (Cons c cs)
  obtain g a ch where st: "st = (g, a, ch)" by (cases st)
  show ?case
  proof (cases "group_step st c = st")
    case True
    with Cons show ?thesis by auto
  next
    case False
    then have new: "id_track c \<notin> a \<and> id_track c \<in> fst (snd (group_step st c))"
      by (auto simp: st group_step_def split: if_splits)
    from foldl_group_step_assigned_mono [of "group_step st c" cs] new
    show ?thesis by (auto simp: st)
  qed
qed

lemma unassigned_shrinks:
  assumes "a \<subseteq> a'" and "c \<in> set cs" and "id_track c \<notin> a" and "id_track c \<in> a'"
  shows "length (unassigned cs a') < length (unassigned cs a)"
proof -
  have "unassigned cs a' = filter (\<lambda>t. id_track t \<notin> a') (unassigned cs a)"
    using assms(1) by (auto simp: unassigned_def intro: filter_cong)
  moreover have "c \<in> set (unassigned cs a)"
    using assms(2,3) by (simp add: unassigned_def)
  ultimately show ?thesis
    using assms(4) length_filter_less [of c "unassigned cs a" "\<lambda>t. id_track t \<notin> a'"] by simp
qed

lemma group_pass_decreases:
  assumes "group_pass analyzedTracks grp assigned = (grp', assigned', True)"
  shows "length (unassigned analyzedTracks assigned') < length (unassigned analyzedTracks assigned)"
proof -
  have res: "foldl group_step (grp, assigned, False) analyzedTracks = (grp', assigned', True)"
    using assms by (simp add: group_pass_def)
  from foldl_group_step_changed [of "(grp, assigned, False)" analyzedTracks] res
  obtain c where c: "c \<in> set analyzedTracks" "id_track c \<notin> assigned" "id_track c \<in> assigned'"
    by auto
  from foldl_group_step_assigned_mono [of "(grp, assigned, False)" analyzedTracks] res
  have "assigned \<subseteq> assigned'" by simp
  from unassigned_shrinks [OF this c] show ?thesis .
qed

function grow_group ::
  "Track list \<Rightarrow> Track list \<Rightarrow> string set \<Rightarrow> Track list \<times> string set" where
  "grow_group analyzedTracks grp assigned =
     (case group_pass analyzedTracks grp assigned of
        (grp', assigned', changed) \<Rightarrow>
          if changed then grow_group analyzedTracks grp' assigned' else (grp', assigned'))"
  by pat_completeness auto
termination
proof (relation "measure (\<lambda>(analyzedTracks, grp, assigned).
                  length (unassigned analyzedTracks assigned))", goal_cases)
  case 1
  show ?case by simp
next
  case (2 analyzedTracks grp assigned x y xa ya)
  then have "group_pass analyzedTracks grp assigned = (x, xa, True)"
    by (cases y) auto
  from group_pass_decreases [OF this] show ?case by simp
qed

definition groups_step ::
  "Track list \<Rightarrow> Track list list \<times> string set \<Rightarrow> Track \<Rightarrow> Track list list \<times> string set" where
  "groups_step analyzedTracks st track =
     (case st of (grps, assigned) \<Rightarrow>
        if id_track track \<in> assigned then st
        else (case grow_group analyzedTracks [track] (insert (id_track track) assigned) of
                (grp, assigned') \<Rightarrow> (grps @ [grp], assigned')))"

text \<open>
  \<open>groups.sort((a, b) => b.length - a.length)\<close>: \<open>Array.prototype.sort\<close> is stable, so the
  result is the stable sort by descending length.
\<close>

definition sort_by_size :: "Track list list \<Rightarrow> Track list list" where
  "sort_by_size grps = sort_key (\<lambda>g. - int (length g)) grps"

definition findCompatibleGroups :: "Track list \<Rightarrow> Track list list" where
  "findCompatibleGroups tracks =
     (let analyzedTracks = filter isTrackAnalyzed tracks
      in if length analyzedTracks = 0 then []
         else sort_by_size (fst (foldl (groups_step analyzedTracks) ([], {}) analyzedTracks)))"

section \<open>The reference algorithm of the specification\<close>

text \<open>
  The ordering procedure in the words of the specification, to be compared with
  \<open>findOptimalOrder\<close>. A tempo difference is the number \<open>abs_bpm_diff\<close> that the program
  computes and reports. \<open>first_min cost xs\<close> is the first element of \<open>xs\<close> whose cost is
  at most the cost of every element: the smallest cost wins, and among equal costs the
  element met first.
\<close>

definition first_min :: "('a \<Rightarrow> number) \<Rightarrow> 'a list \<Rightarrow> 'a option" where
  "first_min cost xs = find (\<lambda>c. \<forall>c' \<in> set xs. number_le (cost c) (cost c')) xs"

text \<open>
  A legal transition: both tracks analyzed, tempo difference at most 20 and key positions
  compatible (classified other than incompatible).
\<close>

definition legal_transition :: "Track \<Rightarrow> Track \<Rightarrow> bool" where
  "legal_transition X Y =
     (case (bpm X, camelotKey X, bpm Y, camelotKey Y) of
        (Some bx, Some kx, Some by, Some ky) \<Rightarrow>
          number_le (number_abs (number_sub bx by)) (Num 20)
          \<and> getKeyCompatibilityType kx ky \<noteq> Incompatible
      | _ \<Rightarrow> False)"

text \<open>
  One greedy step: among the unused analyzed tracks that form a legal transition from the
  tail of the path, the one with the smallest absolute BPM difference, the first in input
  order among equals; none at a dead end.
\<close>

definition spec_next :: "Track list \<Rightarrow> Track list \<Rightarrow> Track option" where
  "spec_next analyzed path =
     first_min (abs_bpm_diff (last path))
       (filter (\<lambda>t. t \<notin> set path \<and> legal_transition (last path) t) analyzed)"

lemma find_Some_member: "find P xs = Some x \<Longrightarrow> x \<in> set xs \<and> P x"
  by (induction xs) (auto split: if_splits)

lemma spec_next_unused:
  assumes "spec_next analyzed path = Some t"
  shows "length (filter (\<lambda>u. u \<noteq> t \<and> u \<notin> set path) analyzed)
         < length (filter (\<lambda>u. u \<notin> set path) analyzed)"
proof -
  from assms have "t \<in> set (filter (\<lambda>t. t \<notin> set path \<and> legal_transition (last path) t) analyzed)"
    unfolding spec_next_def first_min_def by (blast dest: find_Some_member)
  then have t: "t \<in> set (filter (\<lambda>u. u \<notin> set path) analyzed)" by simp
  have "filter (\<lambda>u. u \<noteq> t \<and> u \<notin> set path) analyzed
      = filter (\<lambda>u. u \<noteq> t) (filter (\<lambda>u. u \<notin> set path) analyzed)"
    by (auto intro: filter_cong)
  then show ?thesis
    using length_filter_less [OF t, of "\<lambda>u. u \<noteq> t"] by simp
qed

function spec_greedy :: "Track list \<Rightarrow> Track list \<Rightarrow> Track list" where
  "spec_greedy analyzed path =
     (case spec_next analyzed path of
        None \<Rightarrow> path
      | Some t \<Rightarrow> spec_greedy analyzed (path @ [t]))"
  by pat_completeness auto
termination
  by (relation "measure (\<lambda>(analyzed, path). length (filter (\<lambda>u. u \<notin> set path) analyzed))")
    (simp_all add: spec_next_unused)

text \<open>
  The path score: the sum of the squared BPM differences of consecutive tracks, each
  square added to the running sum from the start of the path on, in the arithmetic of
  numbers.
\<close>

fun spec_score_from :: "number \<Rightarrow> Track list \<Rightarrow> number" where
  "spec_score_from acc (x # y # rest) =
     spec_score_from (number_add acc (number_mul (abs_bpm_diff x y) (abs_bpm_diff x y))) (y # rest)"
| "spec_score_from acc path = acc"

definition spec_score :: "Track list \<Rightarrow> number" where
  "spec_score path = spec_score_from (Num 0) path"

text \<open>
  One greedy path per analyzed track as seed. Among the paths that cover all analyzed
  tracks, the one with the lowest score, the first such on a tie. If no path is complete,
  the longest path, among the longest the one with the lowest score, the first on a tie.
\<close>

definition spec_order :: "Track list \<Rightarrow> Track list option" where
  "spec_order analyzed =
     (let paths = map (\<lambda>seed. spec_greedy analyzed [seed]) analyzed;
          complete = filter (\<lambda>p. set analyzed \<subseteq> set p) paths
      in if complete \<noteq> [] then first_min spec_score complete
         else first_min spec_score (filter (\<lambda>p. \<forall>q \<in> set paths. length q \<le> length p) paths))"

text \<open>
  The legal-transition relation on the analyzed tracks, and the connected component of a
  track: everything reachable from it along legal transitions.
\<close>

definition compat_rel :: "Track list \<Rightarrow> (Track \<times> Track) set" where
  "compat_rel A = {(x, y). x \<in> set A \<and> y \<in> set A \<and> legal_transition x y}"

definition component :: "Track list \<Rightarrow> Track \<Rightarrow> Track set" where
  "component A x = {y. (x, y) \<in> (compat_rel A)\<^sup>*}"

text \<open>
  Resolution in the words of the specification: look the label up in the table after
  trimming surrounding white space and ignoring case; no mapping otherwise.
\<close>

definition spec_resolve :: "string \<Rightarrow> CamelotKey option" where
  "spec_resolve label =
     map_option snd
       (find (\<lambda>(mapKey, camelot). toLowerCase mapKey = toLowerCase (trim label)) CAMELOT_MAP)"

text \<open>The helper of the test suite that builds a track from an id, a BPM and a key.\<close>

definition createMockTrack :: "string \<Rightarrow> number option \<Rightarrow> CamelotKey option \<Rightarrow> Track" where
  "createMockTrack i b k =
     \<lparr>id_track = i, filename = i @ ''.mp3'', bpm = b,
      key = (if k \<noteq> None then Some ''C major'' else None), camelotKey = k,
      duration = Some (Num 180),
      status = (if b \<noteq> None \<and> k \<noteq> None then Complete else Pending),
      errorMessage = None, mixStatus = NoMix, mixOrder = None\<rparr>"

text \<open>A batch whose analyzed tracks all have a finite tempo.\<close>

definition finite_tempos :: "Track list \<Rightarrow> bool" where
  "finite_tempos tracks = list_all (\<lambda>t. isFinite (bpm_number t)) tracks"

section \<open>Facts about rounding\<close>

text \<open>
  Rounding is monotone on the non-negative reals, never yields \<open>NaN\<close>, and commutes with
  the absolute value.
\<close>

lemma round_half_even_int: "round_half_even (of_int k) = k"
  by (simp add: round_half_even_def)

lemma round_half_even_bounds: "\<lfloor>x\<rfloor> \<le> round_half_even x \<and> round_half_even x \<le> \<lfloor>x\<rfloor> + 1"
  by (simp add: round_half_even_def Let_def)

lemma round_half_even_mono:
  assumes "x \<le> y"
  shows "round_half_even x \<le> round_half_even y"
proof (cases "\<lfloor>x\<rfloor> = \<lfloor>y\<rfloor>")
  case True
  then show ?thesis
    using assms by (auto simp: round_half_even_def Let_def)
next
  case False
  with assms have "\<lfloor>x\<rfloor> < \<lfloor>y\<rfloor>" by (simp add: floor_mono le_neq_trans)
  then show ?thesis
    using round_half_even_bounds [of x] round_half_even_bounds [of y] by linarith
qed

lemma exponent_bracket:
  assumes "0 < x"
  shows "2 powi exponent x \<le> x \<and> x < 2 powi (exponent x + 1)"
proof (cases "1 \<le> x")
  case True
  define k where "k = \<lfloor>x\<rfloor>"
  have k: "0 < k" using True by (simp add: k_def)
  have e: "exponent x = bitlen k - 1" using True by (simp add: exponent_def k_def)
  have pos: "0 \<le> bitlen k - 1"
    using k by (simp add: bitlen_alt_def)
  from bitlen_bounds [OF k] have lo: "2 ^ nat (bitlen k - 1) \<le> k" and hi: "k < 2 ^ nat (bitlen k)"
    by simp_all
  have "(2::real) powi (bitlen k - 1) = of_int (2 ^ nat (bitlen k - 1))"
    using pos by (simp add: power_int_def)
  also have "\<dots> \<le> of_int k" using lo by (simp only: of_int_le_iff)
  also have "\<dots> \<le> x" by (simp add: k_def)
  finally have lower: "2 powi exponent x \<le> x" by (simp add: e)
  have "k + 1 \<le> 2 ^ nat (bitlen k)" using hi by simp
  then have "of_int (k + 1) \<le> (of_int (2 ^ nat (bitlen k)) :: real)"
    by (simp only: of_int_le_iff)
  moreover have "x < of_int (k + 1)" by (simp add: k_def)
  moreover have "(of_int (2 ^ nat (bitlen k)) :: real) = 2 powi (bitlen k - 1 + 1)"
    using pos by (simp add: power_int_def)
  ultimately have "x < 2 powi (exponent x + 1)" by (simp add: e)
  with lower show ?thesis by simp
next
  case False
  define y where "y = 1 / x"
  define k where "k = \<lfloor>y\<rfloor>"
  define f where "f = bitlen k - 1"
  have y: "1 < y" using assms False by (simp add: y_def)
  have k: "0 < k" using y by (simp add: k_def)
  have pos: "0 \<le> f" using k by (simp add: f_def bitlen_alt_def)
  from bitlen_bounds [OF k] have lo: "2 ^ nat f \<le> k" and hi: "k < 2 ^ nat (f + 1)"
    by (simp_all add: f_def)
  have "(2::real) ^ nat f = of_int (2 ^ nat f)" by simp
  also have "\<dots> \<le> of_int k" using lo by (simp only: of_int_le_iff)
  also have "\<dots> \<le> y" by (simp add: k_def)
  finally have ylo: "2 ^ nat f \<le> y" .
  have "k + 1 \<le> 2 ^ nat (f + 1)" using hi by simp
  then have "of_int (k + 1) \<le> (of_int (2 ^ nat (f + 1)) :: real)"
    by (simp only: of_int_le_iff)
  moreover have "y < of_int (k + 1)" by (simp add: k_def)
  ultimately have yhi: "y < 2 ^ nat (f + 1)" by simp
  have xhi: "x \<le> 2 powi (- f)"
  proof -
    have "x = 1 / y" using assms by (simp add: y_def)
    also have "\<dots> \<le> 1 / 2 ^ nat f"
      using ylo y by (intro divide_left_mono) simp_all
    also have "\<dots> = 2 powi (- f)"
      using pos by (simp add: power_int_def field_simps)
    finally show ?thesis .
  qed
  have xlo: "2 powi (- f - 1) < x"
  proof -
    have "(2::real) powi (- f - 1) = 1 / 2 ^ nat (f + 1)"
      using pos by (simp add: power_int_def field_simps nat_add_distrib)
    also have "\<dots> < 1 / y"
      using yhi y by (intro divide_strict_left_mono) simp_all
    also have "\<dots> = x" using assms by (simp add: y_def)
    finally show ?thesis .
  qed
  have e: "exponent x = (if x = 2 powi (- f) then - f else - f - 1)"
    using False by (simp add: exponent_def y_def k_def f_def Let_def)
  have e1: "x = 2 powi (- f) \<Longrightarrow> exponent x = - f"
    and e2: "x \<noteq> 2 powi (- f) \<Longrightarrow> exponent x = - f - 1"
    unfolding e by simp_all
  show ?thesis
  proof (cases "x = 2 powi (- f)")
    case True
    have ex: "exponent x = - f" using True by (rule e1)
    have "(2::real) powi (- f) < 2 powi (- f + 1)"
      by (rule power_int_strict_increasing) simp_all
    then have "2 powi (- f) \<le> x \<and> x < 2 powi (- f + 1)" using xhi True by (simp only: order_refl simp_thms)
    then show ?thesis by (simp only: ex)
  next
    case neq: False
    have ex: "exponent x = - f - 1" using neq by (rule e2)
    have "x < 2 powi (- f)" using xhi neq by simp
    then have "2 powi (- f - 1) \<le> x \<and> x < 2 powi (- f - 1 + 1)" using xlo by simp
    then show ?thesis by (simp only: ex)
  qed
qed

lemma two_powi_less_cancel: "(2::real) powi a < 2 powi b \<Longrightarrow> a < b"
  using power_int_increasing [of b a "2::real"] by (cases "a < b") auto

lemma two_powi_mono: "a \<le> b \<Longrightarrow> (2::real) powi a \<le> 2 powi b"
  by (rule power_int_increasing) simp_all

lemma exponent_mono:
  assumes "0 < x" and "x \<le> y"
  shows "exponent x \<le> exponent y"
proof -
  from exponent_bracket [OF assms(1)] have "2 powi exponent x \<le> x" by simp
  also note assms(2)
  also from exponent_bracket [of y] assms have "y < 2 powi (exponent y + 1)" by simp
  finally have "(2::real) powi exponent x < 2 powi (exponent y + 1)" .
  then have "exponent x < exponent y + 1"
    by (rule two_powi_less_cancel)
  then show ?thesis by simp
qed

lemma two_powi_53: "(2::real) powi (e + 1) = 2 ^ 53 * 2 powi (e - 52)"
proof -
  have "e + 1 = 53 + (e - 52)" by simp
  then have "(2::real) powi (e + 1) = 2 powi (53 + (e - 52))" by (simp only:)
  also have "\<dots> = 2 powi 53 * 2 powi (e - 52)" by (rule power_int_add) simp
  finally show ?thesis by simp
qed

lemma two_powi_52: "(2::real) powi e = 2 ^ 52 * 2 powi (e - 52)"
proof -
  have "e = 52 + (e - 52)" by simp
  then have "(2::real) powi e = 2 powi (52 + (e - 52))" by (simp only:)
  also have "\<dots> = 2 powi 52 * 2 powi (e - 52)" by (rule power_int_add) simp
  finally show ?thesis by simp
qed

lemma ulp_pos: "0 < ulp x"
  by (simp add: ulp_def)

lemma below_binade_top:
  assumes "0 < x"
  shows "x / ulp x < 2 ^ 53"
proof -
  define e where "e = max (exponent x) (- 1022)"
  have "x < 2 powi (exponent x + 1)" using exponent_bracket [OF assms] by simp
  also have "\<dots> \<le> 2 powi (e + 1)" by (rule two_powi_mono) (simp add: e_def)
  also have "\<dots> = 2 ^ 53 * 2 powi (e - 52)" by (rule two_powi_53)
  finally have "x < 2 ^ 53 * ulp x" by (simp add: ulp_def e_def)
  then show ?thesis using ulp_pos [of x] by (simp add: field_simps)
qed

lemma above_binade_bottom:
  assumes "0 < x" and "- 1022 \<le> exponent x"
  shows "2 ^ 52 \<le> x / ulp x" and "ulp x * 2 ^ 52 = 2 powi exponent x"
proof -
  have u: "ulp x = 2 powi (exponent x - 52)" using assms(2) by (simp add: ulp_def max_def)
  show eq: "ulp x * 2 ^ 52 = 2 powi exponent x"
    unfolding u using two_powi_52 [of "exponent x"] by (simp only: mult.commute)
  have "2 powi exponent x \<le> x" using exponent_bracket [OF assms(1)] by simp
  then have "ulp x * 2 ^ 52 \<le> x" by (simp only: eq)
  then show "2 ^ 52 \<le> x / ulp x" using ulp_pos [of x] by (simp add: field_simps)
qed

lemma round_magnitude_mono:
  assumes "0 < x" and "x \<le> y"
  shows "round_magnitude x \<le> round_magnitude y"
proof (cases "ulp x = ulp y")
  case True
  have "x / ulp y \<le> y / ulp y"
    using assms(2) ulp_pos [of y] by (simp add: divide_right_mono)
  then have "round_half_even (x / ulp y) \<le> round_half_even (y / ulp y)"
    by (rule round_half_even_mono)
  then have "of_int (round_half_even (x / ulp y)) * ulp y
      \<le> (of_int (round_half_even (y / ulp y)) :: real) * ulp y"
    using ulp_pos [of y] by (simp add: mult_right_mono)
  then show ?thesis by (simp add: round_magnitude_def True)
next
  case False
  have y: "0 < y" using assms by simp
  have ex: "exponent x \<le> exponent y" using assms by (rule exponent_mono)
  have lt: "max (exponent x) (- 1022) < max (exponent y) (- 1022)"
  proof (rule ccontr)
    assume "\<not> max (exponent x) (- 1022) < max (exponent y) (- 1022)"
    with ex have "max (exponent x) (- 1022) = max (exponent y) (- 1022)"
      by (simp add: max_def split: if_splits)
    with False show False by (simp add: ulp_def)
  qed
  then have normal: "- 1022 \<le> exponent y" and step: "max (exponent x) (- 1022) + 1 \<le> exponent y"
    by (auto simp: max_def split: if_splits)
  have "round_half_even (x / ulp x) \<le> round_half_even (of_int (2 ^ 53))"
    using below_binade_top [OF assms(1)] by (intro round_half_even_mono) simp
  then have "round_half_even (x / ulp x) \<le> 2 ^ 53" by (simp only: round_half_even_int)
  then have "(of_int (round_half_even (x / ulp x)) :: real) \<le> of_int (2 ^ 53)"
    by (simp only: of_int_le_iff)
  then have "round_magnitude x \<le> 2 ^ 53 * ulp x"
    using ulp_pos [of x] by (simp add: round_magnitude_def mult_right_mono)
  also have "\<dots> = 2 powi (max (exponent x) (- 1022) + 1)"
    unfolding ulp_def by (rule two_powi_53 [symmetric])
  also have "\<dots> \<le> 2 powi exponent y" using step by (rule two_powi_mono)
  also have "\<dots> = ulp y * 2 ^ 52" using above_binade_bottom(2) [OF y normal] by simp
  also have "\<dots> \<le> round_magnitude y"
  proof -
    have "round_half_even (of_int (2 ^ 52)) \<le> round_half_even (y / ulp y)"
      using above_binade_bottom(1) [OF y normal] by (intro round_half_even_mono) simp
    then have "2 ^ 52 \<le> round_half_even (y / ulp y)" by (simp only: round_half_even_int)
    then have "(of_int (2 ^ 52) :: real) \<le> of_int (round_half_even (y / ulp y))"
      by (simp only: of_int_le_iff)
    then show ?thesis
      using ulp_pos [of y] by (simp add: round_magnitude_def mult_right_mono mult.commute)
  qed
  finally show ?thesis .
qed

lemma round_magnitude_nonneg: "0 < x \<Longrightarrow> 0 \<le> round_magnitude x"
proof -
  assume "0 < x"
  then have "0 \<le> x / ulp x" using ulp_pos [of x] by simp
  then have "round_half_even (of_int 0) \<le> round_half_even (x / ulp x)"
    by (intro round_half_even_mono) simp
  then have "0 \<le> round_half_even (x / ulp x)" by (simp only: round_half_even_int)
  then show ?thesis using ulp_pos [of x] by (simp add: round_magnitude_def)
qed

lemma round_double_not_NaN: "round_double x \<noteq> NaN"
  by (simp add: round_double_def Let_def)

lemma exponent_zero: "exponent 0 = 0"
  by (simp add: exponent_def)

lemma overflow_iff:
  assumes "0 < r"
  shows "(1024 \<le> exponent r) = (2 powi 1024 \<le> r)"
proof
  assume "1024 \<le> exponent r"
  then have "(2::real) powi 1024 \<le> 2 powi exponent r" by (rule two_powi_mono)
  also have "\<dots> \<le> r" using exponent_bracket [OF assms] by simp
  finally show "2 powi 1024 \<le> r" .
next
  assume "2 powi 1024 \<le> r"
  also have "r < 2 powi (exponent r + 1)" using exponent_bracket [OF assms] by simp
  finally have "(1024::int) < exponent r + 1" by (rule two_powi_less_cancel)
  then show "1024 \<le> exponent r" by simp
qed

lemma round_double_nonneg_cases:
  assumes "0 \<le> x"
  shows "round_double x =
     (if 1024 \<le> exponent (round_magnitude x) then Infinity else Num (round_magnitude x))"
proof (cases "x = 0")
  case True
  then show ?thesis
    by (simp add: round_double_def round_magnitude_def round_half_even_def exponent_zero)
next
  case False
  with assms show ?thesis by (simp add: round_double_def Let_def)
qed

lemma round_magnitude_zero: "round_magnitude 0 = 0"
  by (simp add: round_magnitude_def round_half_even_def)

lemma round_magnitude_mono_nonneg: "0 \<le> x \<Longrightarrow> x \<le> y \<Longrightarrow> round_magnitude x \<le> round_magnitude y"
  using round_magnitude_mono [of x y] round_magnitude_nonneg [of y]
  by (cases "x = 0"; cases "y = 0") (simp_all add: round_magnitude_zero)

lemma round_double_bounded:
  assumes "0 \<le> x" and "x \<le> y" and "round_double y = Num b"
  shows "\<exists>a. round_double x = Num a \<and> 0 \<le> a \<and> a \<le> b"
proof -
  have y: "0 \<le> y" using assms by simp
  from assms(3) have b: "b = round_magnitude y" "\<not> 1024 \<le> exponent (round_magnitude y)"
    by (simp_all add: round_double_nonneg_cases [OF y] split: if_splits)
  have le: "round_magnitude x \<le> round_magnitude y"
    using assms(1,2) by (rule round_magnitude_mono_nonneg)
  have nonneg: "0 \<le> round_magnitude x"
    using round_magnitude_nonneg [of x] assms(1) by (cases "x = 0") (simp_all add: round_magnitude_zero)
  have "\<not> 1024 \<le> exponent (round_magnitude x)"
  proof (cases "round_magnitude x = 0")
    case True
    then show ?thesis by (simp add: exponent_zero)
  next
    case False
    with nonneg have "0 < round_magnitude x" by simp
    from exponent_mono [OF this le] b(2) show ?thesis by simp
  qed
  with le b nonneg show ?thesis
    by (simp add: round_double_nonneg_cases [OF assms(1)])
qed

lemma round_double_abs:
  "number_abs (round_double x) = round_double \<bar>x\<bar>"
proof (cases "x = 0")
  case True
  then show ?thesis by (simp add: round_double_def)
next
  case False
  have "0 \<le> round_magnitude \<bar>x\<bar>" using False by (intro round_magnitude_nonneg) simp
  then show ?thesis using False by (simp add: round_double_def Let_def)
qed

lemma round_double_400: "round_double 400 = Num 400"
  by code_simp

lemma round_double_sum_cap: "round_double (2 ^ 63 + 400) = Num (2 ^ 63)"
  by code_simp

lemma number_less_finite:
  "isFinite a \<Longrightarrow> isFinite b \<Longrightarrow> number_less a b = (number_real a < number_real b)"
  by (cases a; cases b) simp_all

lemma number_le_finite:
  "isFinite a \<Longrightarrow> isFinite b \<Longrightarrow> number_le a b = (number_real a \<le> number_real b)"
  by (cases a; cases b) (auto simp: number_le_def)

lemma number_le_not_greater:
  "a \<noteq> NaN \<Longrightarrow> b \<noteq> NaN \<Longrightarrow> number_le a b = (\<not> number_greater a b)"
  by (cases a; cases b) (auto simp: number_le_def number_greater_def)

lemma number_abs_sub_commute: "number_abs (number_sub a b) = number_abs (number_sub b a)"
proof (cases a; cases b)
  fix x y assume "a = Num x" "b = Num y"
  then show ?thesis
    by (simp add: round_double_abs abs_minus_commute)
qed simp_all

lemma isFinite_conv: "isFinite a = (\<exists>x. a = Num x)"
  by (cases a) simp_all

section \<open>Facts about the Camelot wheel\<close>

lemma parseCamelotKey_position:
  "parseCamelotKey k = \<lparr>number = Some (fst (position k)), letter = [snd (position k)]\<rparr>"
  by (cases k)
    (simp_all add: parseCamelotKey_def parseInt_def slice_def slice_from_def slice_index_def
      is_whitespace_def is_digit_def digit_value_def)

lemma position_range: "1 \<le> fst (position k) \<and> fst (position k) \<le> 12"
  by (cases k) simp_all

lemma position_injective: "position a = position b \<Longrightarrow> a = b"
  by (cases a; cases b) simp_all

lemma circularDistance_position:
  "circularDistance (Some (fst (position a))) (Some (fst (position b))) = Some (ring_distance a b)"
  by (simp add: circularDistance_def Math_abs_def Math_min_def js_sub_def ring_distance_def)

lemma ring_distance_range: "0 \<le> ring_distance a b \<and> ring_distance a b \<le> 6"
  using position_range [of a] position_range [of b]
  by (simp add: ring_distance_def min_def) arith

lemma ring_distance_sym: "ring_distance a b = ring_distance b a"
  by (simp add: ring_distance_def abs_minus_commute)

lemma ring_distance_zero: "ring_distance a b = 0 \<longleftrightarrow> fst (position a) = fst (position b)"
  using position_range [of a] position_range [of b]
  by (simp add: ring_distance_def min_def) arith

lemma getCamelotDistance_spec: "getCamelotDistance a b = Some (spec_distance a b)"
  by (simp add: getCamelotDistance_def parseCamelotKey_position circularDistance_position
      js_eq_def js_add_def spec_distance_def Let_def)

lemma getKeyCompatibilityType_position:
  "getKeyCompatibilityType a b =
     (if fst (position a) = fst (position b) \<and> snd (position a) = snd (position b) then Same
      else if fst (position a) = fst (position b) then Relative
      else if ring_distance a b = 1 \<and> snd (position a) = snd (position b) then Adjacent
      else Incompatible)"
  by (simp add: getKeyCompatibilityType_def parseCamelotKey_position circularDistance_position
      js_eq_def Let_def)

lemma getKeyCompatibilityType_sym: "getKeyCompatibilityType a b = getKeyCompatibilityType b a"
  by (simp add: getKeyCompatibilityType_position ring_distance_sym [of a b])

lemma isCamelotCompatible_sym: "isCamelotCompatible a b = isCamelotCompatible b a"
  by (simp add: isCamelotCompatible_def getKeyCompatibilityType_sym [of a b])

text \<open>
  C8. For every pair of Camelot keys, \<open>getCamelotDistance\<close> is a number (never \<open>NaN\<close>)
  equal to the distance formula of the specification: with \<open>d\<close> the circular distance of
  the two numbers on the 12-point ring, 1 if \<open>d = 0\<close> and the letters differ, \<open>d + 1\<close> if
  the letters differ and \<open>d \<noteq> 0\<close>, and \<open>d\<close> otherwise. It lies between 0 and 7, and the
  distance of a key to itself is 0.
\<close>

theorem getCamelotDistance_formula_and_bounds:
  "getCamelotDistance A B = Some (spec_distance A B)
   \<and> 0 \<le> spec_distance A B \<and> spec_distance A B \<le> 7
   \<and> getCamelotDistance A A = Some 0"
proof -
  have range: "0 \<le> spec_distance A B \<and> spec_distance A B \<le> 7"
    using ring_distance_range [of A B] by (simp add: spec_distance_def Let_def)
  have self: "spec_distance A A = 0"
    by (simp add: spec_distance_def ring_distance_def)
  show ?thesis
    using range self by (simp add: getCamelotDistance_spec)
qed

lemma VALID_CAMELOT_KEYS_all: "set VALID_CAMELOT_KEYS = UNIV"
proof -
  have "k \<in> set VALID_CAMELOT_KEYS" for k
    by (cases k) (simp_all add: VALID_CAMELOT_KEYS_def)
  then show ?thesis by auto
qed

lemma ring_distance_one: "ring_distance a b = 1 \<Longrightarrow> fst (position a) \<noteq> fst (position b)"
  by (auto simp: ring_distance_def)

text \<open>
  C9. For every pair of the 24 Camelot keys, the classification and the compatibility
  predicate are symmetric, a key classified against itself is \<open>Same\<close>, and the
  classification follows the cases of the specification exactly: \<open>Same\<close> iff number and
  letter are equal, \<open>Relative\<close> iff the numbers are equal and the letters differ,
  \<open>Adjacent\<close> iff the circular distance of the numbers is exactly 1 and the letters are
  equal, \<open>Incompatible\<close> in every other case; a diagonal move such as 8B to 9A is
  \<open>Incompatible\<close>.
\<close>

theorem camelot_classification:
  "getKeyCompatibilityType A B = getKeyCompatibilityType B A
   \<and> isCamelotCompatible A B = isCamelotCompatible B A
   \<and> getKeyCompatibilityType A A = Same
   \<and> (getKeyCompatibilityType A B = Same) =
       (fst (position A) = fst (position B) \<and> snd (position A) = snd (position B))
   \<and> (getKeyCompatibilityType A B = Relative) =
       (fst (position A) = fst (position B) \<and> snd (position A) \<noteq> snd (position B))
   \<and> (getKeyCompatibilityType A B = Adjacent) =
       (ring_distance A B = 1 \<and> snd (position A) = snd (position B))
   \<and> (getKeyCompatibilityType A B = Incompatible) =
       (fst (position A) \<noteq> fst (position B)
        \<and> \<not> (ring_distance A B = 1 \<and> snd (position A) = snd (position B)))
   \<and> getKeyCompatibilityType K8B K9A = Incompatible"
proof -
  have sym: "getKeyCompatibilityType A B = getKeyCompatibilityType B A"
    by (rule getKeyCompatibilityType_sym)
  have csym: "isCamelotCompatible A B = isCamelotCompatible B A"
    by (rule isCamelotCompatible_sym)
  have refl: "getKeyCompatibilityType A A = Same"
    by (simp add: getKeyCompatibilityType_position)
  have same: "(getKeyCompatibilityType A B = Same) =
       (fst (position A) = fst (position B) \<and> snd (position A) = snd (position B))"
    by (simp add: getKeyCompatibilityType_position)
  have rel: "(getKeyCompatibilityType A B = Relative) =
       (fst (position A) = fst (position B) \<and> snd (position A) \<noteq> snd (position B))"
    by (auto simp: getKeyCompatibilityType_position)
  have adj: "(getKeyCompatibilityType A B = Adjacent) =
       (ring_distance A B = 1 \<and> snd (position A) = snd (position B))"
    using ring_distance_one [of A B] by (auto simp: getKeyCompatibilityType_position)
  have inc: "(getKeyCompatibilityType A B = Incompatible) =
       (fst (position A) \<noteq> fst (position B)
        \<and> \<not> (ring_distance A B = 1 \<and> snd (position A) = snd (position B)))"
    by (auto simp: getKeyCompatibilityType_position)
  have diag: "getKeyCompatibilityType K8B K9A = Incompatible"
    by (simp add: getKeyCompatibilityType_position)
  from sym csym refl same rel adj inc diag show ?thesis by blast
qed

section \<open>Facts about transitions\<close>

lemma isTransitionCompatible_cases:
  "isTransitionCompatible X Y =
     (case (bpm X, camelotKey X, bpm Y, camelotKey Y) of
        (Some bx, Some kx, Some by, Some ky) \<Rightarrow>
          \<not> number_greater (number_abs (number_sub bx by)) (Num 20) \<and> isCamelotCompatible kx ky
      | _ \<Rightarrow> False)"
  by (auto simp: isTransitionCompatible_def isTrackAnalyzed_def abs_bpm_diff_def bpm_number_def
      MAX_BPM_DIFFERENCE_def split: option.splits)

lemma abs_bpm_diff_sym: "abs_bpm_diff X Y = abs_bpm_diff Y X"
  unfolding abs_bpm_diff_def by (rule number_abs_sub_commute)

lemma isTransitionCompatible_sym: "isTransitionCompatible X Y = isTransitionCompatible Y X"
  using isCamelotCompatible_sym number_abs_sub_commute
  by (auto simp: isTransitionCompatible_cases split: option.splits)

lemma legal_transition_cases:
  "legal_transition X Y =
     (isTrackAnalyzed X \<and> isTrackAnalyzed Y \<and> number_le (abs_bpm_diff X Y) (Num 20)
      \<and> (case (camelotKey X, camelotKey Y) of
            (Some kx, Some ky) \<Rightarrow> isCamelotCompatible kx ky
          | _ \<Rightarrow> False))"
  by (auto simp: legal_transition_def isTrackAnalyzed_def abs_bpm_diff_def bpm_number_def
      isCamelotCompatible_def split: option.splits)

text \<open>
  Away from \<open>NaN\<close> the test of the code, \<open>bpmDiff > 20\<close> negated, is the test
  \<open>bpmDiff \<le> 20\<close> of the specification.
\<close>

lemma legal_transition_code:
  assumes "abs_bpm_diff X Y \<noteq> NaN"
  shows "legal_transition X Y = isTransitionCompatible X Y"
proof -
  have "number_le (abs_bpm_diff X Y) (Num 20) = (\<not> number_greater (abs_bpm_diff X Y) (Num 20))"
    using assms by (intro number_le_not_greater) simp_all
  then show ?thesis
    by (auto simp: legal_transition_cases isTransitionCompatible_def MAX_BPM_DIFFERENCE_def
        isTrackAnalyzed_def split: option.splits)
qed

lemma abs_bpm_diff_finite:
  assumes "isFinite (bpm_number X)" and "isFinite (bpm_number Y)"
  shows "abs_bpm_diff X Y \<noteq> NaN"
proof -
  from assms obtain x y where "bpm_number X = Num x" "bpm_number Y = Num y"
    by (auto simp: isFinite_conv)
  then show ?thesis
    using round_double_not_NaN [of "\<bar>x - y\<bar>"] by (simp add: abs_bpm_diff_def round_double_abs)
qed

lemma compatible_diff_bounded:
  assumes "isFinite (bpm_number X)" and "isFinite (bpm_number Y)"
    and "isTransitionCompatible X Y"
  shows "\<exists>r. abs_bpm_diff X Y = Num r \<and> 0 \<le> r \<and> r \<le> 20"
proof -
  from assms(1,2) obtain x y where xy: "bpm_number X = Num x" "bpm_number Y = Num y"
    by (auto simp: isFinite_conv)
  have d: "abs_bpm_diff X Y = round_double \<bar>x - y\<bar>"
    by (simp add: abs_bpm_diff_def xy round_double_abs)
  from assms(3) have le: "\<not> number_greater (abs_bpm_diff X Y) (Num 20)"
    by (auto simp: isTransitionCompatible_def MAX_BPM_DIFFERENCE_def split: if_splits)
  have nonneg: "0 \<le> round_magnitude \<bar>x - y\<bar>"
    using round_magnitude_mono_nonneg [of 0 "\<bar>x - y\<bar>"] by (simp add: round_magnitude_zero)
  show ?thesis
    using le nonneg unfolding d
    by (auto simp: round_double_nonneg_cases number_greater_def split: if_splits)
qed

text \<open>
  For every pair of tracks whose tempo difference is not \<open>NaN\<close>,
  \<open>isTransitionCompatible\<close> is true exactly when both tracks are analyzed, the
  difference is at most 20 and the keys are Camelot compatible.
\<close>

lemma isTransitionCompatible_characterisation:
  assumes "abs_bpm_diff X Y \<noteq> NaN"
  shows "isTransitionCompatible X Y =
     (isTrackAnalyzed X \<and> isTrackAnalyzed Y \<and> number_le (abs_bpm_diff X Y) (Num 20)
      \<and> (case (camelotKey X, camelotKey Y) of
            (Some kx, Some ky) \<Rightarrow> isCamelotCompatible kx ky
          | _ \<Rightarrow> False))"
  using legal_transition_code [OF assms] by (simp add: legal_transition_cases)

lemma isTransitionCompatible_boundary:
  "isTransitionCompatible (createMockTrack ''1'' (Some (Num 128)) (Some K8B))
      (createMockTrack ''2'' (Some (Num 148)) (Some K8B))
   \<and> \<not> isTransitionCompatible (createMockTrack ''1'' (Some (Num 128)) (Some K8B))
      (createMockTrack ''2'' (Some (Num 149)) (Some K8B))
   \<and> \<not> isTransitionCompatible (createMockTrack ''1'' None (Some K8B))
      (createMockTrack ''2'' (Some (Num 128)) (Some K8B))
   \<and> abs_bpm_diff (createMockTrack ''1'' (Some (Num 128)) (Some K8B))
      (createMockTrack ''2'' (Some (Num 148)) (Some K8B)) = Num 20
   \<and> abs_bpm_diff (createMockTrack ''1'' (Some (Num 128)) (Some K8B))
      (createMockTrack ''2'' (Some (Num 149)) (Some K8B)) = Num 21"
  by code_simp

text \<open>
  C4. The claim: \<open>isTransitionCompatible X Y\<close> is true if and only if both tracks are
  analyzed, the absolute BPM difference is at most 20 and the keys are Camelot compatible.
  A track whose BPM is \<open>NaN\<close> counts as analyzed, since \<open>isTrackAnalyzed\<close> tests only
  \<open>!== null\<close>. Its difference to any track is \<open>NaN\<close>, which is not at most 20; but the
  code rejects a pair by \<open>bpmDiff > 20\<close>, which is false of \<open>NaN\<close>, so a pair with
  compatible keys is compatible, against the function's own documentation
  (\<open>BPM difference is \<le> 20\<close>). For every pair whose difference is not \<open>NaN\<close> the
  characterisation holds (lemma \<open>isTransitionCompatible_characterisation\<close>), the
  predicate is symmetric for all pairs (lemma \<open>isTransitionCompatible_sym\<close>), and a
  difference of exactly 20 is compatible while 21 is not (lemma
  \<open>isTransitionCompatible_boundary\<close>).
\<close>

theorem isTransitionCompatible_nan_tempo:
  "isTransitionCompatible (createMockTrack ''1'' (Some NaN) (Some K8B))
      (createMockTrack ''2'' (Some (Num 128)) (Some K8B))
   \<and> isTrackAnalyzed (createMockTrack ''1'' (Some NaN) (Some K8B))
   \<and> abs_bpm_diff (createMockTrack ''1'' (Some NaN) (Some K8B))
      (createMockTrack ''2'' (Some (Num 128)) (Some K8B)) = NaN
   \<and> number_le (abs_bpm_diff (createMockTrack ''1'' (Some NaN) (Some K8B))
      (createMockTrack ''2'' (Some (Num 128)) (Some K8B))) (Num 20) = False
   \<and> isCamelotCompatible K8B K8B"
  by code_simp

theorem isTransitionCompatible_nan_tempo_witness:
  "isTransitionCompatible (createMockTrack ''1'' (Some NaN) (Some K8B))
      (createMockTrack ''2'' (Some (Num 128)) (Some K8B))"
  using isTransitionCompatible_nan_tempo by (rule conjunct1)

lemma calculateTransitionQuality_cases:
  "calculateTransitionQuality X Y =
     (case (bpm X, camelotKey X, bpm Y, camelotKey Y) of
        (Some bx, Some kx, Some by, Some ky) \<Rightarrow>
          if getKeyCompatibilityType kx ky = Incompatible then Poor
          else if number_greater (number_abs (number_sub bx by)) (Num 20) then Poor
          else if number_less (number_abs (number_sub bx by)) (Num 5) then Excellent
          else if number_less (number_abs (number_sub bx by)) (Num 10) then Good
          else Fair
      | _ \<Rightarrow> Poor)"
  by (auto simp: calculateTransitionQuality_def isTrackAnalyzed_def abs_bpm_diff_def
      bpm_number_def MAX_BPM_DIFFERENCE_def Let_def split: option.splits)

text \<open>
  C6. For two analyzed tracks with BPM difference \<open>d\<close>, the number
  \<open>Math.abs(a.bpm - b.bpm)\<close> that the code computes and reports, and key classification
  \<open>c\<close>, \<open>calculateTransitionQuality\<close> is \<open>Poor\<close> if \<open>c\<close> is \<open>Incompatible\<close> or \<open>d > 20\<close>,
  and otherwise \<open>Excellent\<close> if \<open>d < 5\<close>, \<open>Good\<close> if \<open>5 \<le> d < 10\<close> and \<open>Fair\<close> if
  \<open>10 \<le> d \<le> 20\<close>. If either track is unanalyzed, the quality is \<open>Poor\<close> and
  \<open>createTransition\<close> reports the BPM difference \<open>Infinity\<close>, the key compatibility
  \<open>Incompatible\<close> and the quality \<open>Poor\<close>.
\<close>

theorem transition_quality_tiers:
  "(bpm X = Some bx \<and> camelotKey X = Some kx \<and> bpm Y = Some by \<and> camelotKey Y = Some ky \<longrightarrow>
      (getKeyCompatibilityType kx ky = Incompatible
         \<or> number_greater (number_abs (number_sub bx by)) (Num 20) \<longrightarrow>
         calculateTransitionQuality X Y = Poor)
      \<and> (getKeyCompatibilityType kx ky \<noteq> Incompatible
           \<and> number_less (number_abs (number_sub bx by)) (Num 5) \<longrightarrow>
         calculateTransitionQuality X Y = Excellent)
      \<and> (getKeyCompatibilityType kx ky \<noteq> Incompatible
           \<and> number_le (Num 5) (number_abs (number_sub bx by))
           \<and> number_less (number_abs (number_sub bx by)) (Num 10) \<longrightarrow>
         calculateTransitionQuality X Y = Good)
      \<and> (getKeyCompatibilityType kx ky \<noteq> Incompatible
           \<and> number_le (Num 10) (number_abs (number_sub bx by))
           \<and> number_le (number_abs (number_sub bx by)) (Num 20) \<longrightarrow>
         calculateTransitionQuality X Y = Fair)
      \<and> bpmDifference (createTransition X Y) = number_abs (number_sub bx by))
   \<and> (\<not> isTrackAnalyzed X \<or> \<not> isTrackAnalyzed Y \<longrightarrow>
        calculateTransitionQuality X Y = Poor
        \<and> bpmDifference (createTransition X Y) = Infinity
        \<and> keyCompatibility (createTransition X Y) = Incompatible
        \<and> quality (createTransition X Y) = Poor)"
proof -
  define d where "d = number_abs (number_sub bx by)"
  have poor: "number_greater d (Num 20) \<Longrightarrow> \<not> number_less d (Num 5) \<and> \<not> number_less d (Num 10)"
    by (cases d) (auto simp: number_greater_def)
  have five: "number_less d (Num 5) \<Longrightarrow> \<not> number_greater d (Num 20)"
    by (cases d) (auto simp: number_greater_def)
  have good: "number_le (Num 5) d \<Longrightarrow> number_less d (Num 10) \<Longrightarrow>
      \<not> number_greater d (Num 20) \<and> \<not> number_less d (Num 5)"
    by (cases d) (auto simp: number_greater_def number_le_def)
  have fair: "number_le (Num 10) d \<Longrightarrow> number_le d (Num 20) \<Longrightarrow>
      \<not> number_greater d (Num 20) \<and> \<not> number_less d (Num 5) \<and> \<not> number_less d (Num 10)"
    by (cases d) (auto simp: number_greater_def number_le_def)
  have analyzed: "bpm X = Some bx \<and> camelotKey X = Some kx \<and> bpm Y = Some by
      \<and> camelotKey Y = Some ky \<longrightarrow>
      (getKeyCompatibilityType kx ky = Incompatible \<or> number_greater d (Num 20) \<longrightarrow>
         calculateTransitionQuality X Y = Poor)
      \<and> (getKeyCompatibilityType kx ky \<noteq> Incompatible \<and> number_less d (Num 5) \<longrightarrow>
         calculateTransitionQuality X Y = Excellent)
      \<and> (getKeyCompatibilityType kx ky \<noteq> Incompatible \<and> number_le (Num 5) d
           \<and> number_less d (Num 10) \<longrightarrow>
         calculateTransitionQuality X Y = Good)
      \<and> (getKeyCompatibilityType kx ky \<noteq> Incompatible \<and> number_le (Num 10) d
           \<and> number_le d (Num 20) \<longrightarrow>
         calculateTransitionQuality X Y = Fair)
      \<and> bpmDifference (createTransition X Y) = d"
    using poor five good fair
    by (auto simp: calculateTransitionQuality_cases d_def createTransition_def isTrackAnalyzed_def
        abs_bpm_diff_def bpm_number_def)
  have unanalyzed: "\<not> isTrackAnalyzed X \<or> \<not> isTrackAnalyzed Y \<longrightarrow>
        calculateTransitionQuality X Y = Poor
        \<and> bpmDifference (createTransition X Y) = Infinity
        \<and> keyCompatibility (createTransition X Y) = Incompatible
        \<and> quality (createTransition X Y) = Poor"
    by (auto simp: createTransition_def calculateTransitionQuality_def)
  from analyzed unanalyzed show ?thesis unfolding d_def by blast
qed

theorem transition_quality_tiers_witness:
  "calculateTransitionQuality (createMockTrack ''1'' (Some (Num 128)) (Some K8B))
      (createMockTrack ''2'' (Some (Num 130)) (Some K8B)) = Excellent
   \<and> calculateTransitionQuality (createMockTrack ''1'' (Some (Num 128)) (Some K8B))
      (createMockTrack ''2'' (Some (Num 135)) (Some K8B)) = Good
   \<and> calculateTransitionQuality (createMockTrack ''1'' (Some (Num 128)) (Some K8B))
      (createMockTrack ''2'' (Some (Num 143)) (Some K8B)) = Fair
   \<and> calculateTransitionQuality (createMockTrack ''1'' (Some (Num 128)) (Some K8B))
      (createMockTrack ''2'' (Some (Num 155)) (Some K8B)) = Poor
   \<and> calculateTransitionQuality (createMockTrack ''1'' (Some (Num 128)) (Some K8B))
      (createMockTrack ''2'' (Some (Num 130)) (Some K3B)) = Poor
   \<and> bpmDifference (createTransition (createMockTrack ''1'' None None)
      (createMockTrack ''2'' (Some (Num 128)) (Some K8B))) = Infinity
   \<and> keyCompatibility (createTransition (createMockTrack ''1'' None None)
      (createMockTrack ''2'' (Some (Num 128)) (Some K8B))) = Incompatible
   \<and> quality (createTransition (createMockTrack ''1'' None None)
      (createMockTrack ''2'' (Some (Num 128)) (Some K8B))) = Poor"
proof -
  have d: "round_double (- 2) = Num (- 2)" "round_double (- 7) = Num (- 7)"
    "round_double (- 15) = Num (- 15)" "round_double (- 27) = Num (- 27)"
    by code_simp+
  show ?thesis
  using transition_quality_tiers
      [of "createMockTrack ''1'' (Some (Num 128)) (Some K8B)" "Num 128" K8B
          "createMockTrack ''2'' (Some (Num 130)) (Some K8B)" "Num 130" K8B]
    transition_quality_tiers
      [of "createMockTrack ''1'' (Some (Num 128)) (Some K8B)" "Num 128" K8B
          "createMockTrack ''2'' (Some (Num 135)) (Some K8B)" "Num 135" K8B]
    transition_quality_tiers
      [of "createMockTrack ''1'' (Some (Num 128)) (Some K8B)" "Num 128" K8B
          "createMockTrack ''2'' (Some (Num 143)) (Some K8B)" "Num 143" K8B]
    transition_quality_tiers
      [of "createMockTrack ''1'' (Some (Num 128)) (Some K8B)" "Num 128" K8B
          "createMockTrack ''2'' (Some (Num 155)) (Some K8B)" "Num 155" K8B]
    transition_quality_tiers
      [of "createMockTrack ''1'' (Some (Num 128)) (Some K8B)" "Num 128" K8B
          "createMockTrack ''2'' (Some (Num 130)) (Some K3B)" "Num 130" K3B]
    transition_quality_tiers
      [of "createMockTrack ''1'' None None" _ _
          "createMockTrack ''2'' (Some (Num 128)) (Some K8B)"]
  by (simp add: createMockTrack_def isTrackAnalyzed_def getKeyCompatibilityType_position
      ring_distance_def d number_le_def number_greater_def)
qed

section \<open>Facts about the greedy path\<close>

lemma Set_new_distinct: "distinct xs \<Longrightarrow> Set_new xs = xs"
proof -
  have "distinct (ys @ xs) \<Longrightarrow> foldl Set_add ys xs = ys @ xs" for ys
    by (induction xs arbitrary: ys) (auto simp: Set_add_def)
  from this [of "[]"] show "distinct xs \<Longrightarrow> Set_new xs = xs"
    by (simp add: Set_new_def)
qed

lemma Set_new_props: "distinct (Set_new xs) \<and> set (Set_new xs) = set xs"
proof -
  have "distinct ys \<Longrightarrow> distinct (foldl Set_add ys xs) \<and> set (foldl Set_add ys xs) = set ys \<union> set xs" for ys
    by (induction xs arbitrary: ys) (auto simp: Set_add_def)
  from this [of "[]"] show ?thesis by (simp add: Set_new_def)
qed

lemma greedy_loop_extends:
  "distinct remaining \<Longrightarrow>
   \<exists>ext. greedy_loop path remaining current = path @ ext \<and> distinct ext \<and> set ext \<subseteq> set remaining"
proof (induction path remaining current rule: greedy_loop.induct)
  case (1 path remaining current)
  show ?case
  proof (cases "filter (isTransitionCompatible current) remaining")
    case Nil
    then show ?thesis by (simp add: greedy_loop.simps [of path remaining current])
  next
    case (Cons first rest)
    define best where "best = pick_best current first rest"
    have ne: "remaining \<noteq> []" using Cons by auto
    have "best \<in> set (filter (isTransitionCompatible current) remaining)"
      unfolding Cons best_def by (rule pick_best_member)
    then have mem: "best \<in> set remaining" by simp
    have "distinct (Set_delete remaining best)"
      using "1.prems" by (simp add: Set_delete_def distinct_removeAll)
    from "1.IH" [OF ne Cons best_def this]
    obtain ext where ext: "greedy_loop (path @ [best]) (Set_delete remaining best) best
        = (path @ [best]) @ ext" "distinct ext" "set ext \<subseteq> set (Set_delete remaining best)"
      by blast
    have "greedy_loop path remaining current = path @ (best # ext)"
      using ne Cons ext(1) by (simp add: greedy_loop.simps [of path remaining current] best_def Let_def)
    moreover have "distinct (best # ext)"
      using ext(2,3) by (auto simp: Set_delete_def)
    moreover have "set (best # ext) \<subseteq> set remaining"
      using ext(3) mem by (auto simp: Set_delete_def)
    ultimately show ?thesis by blast
  qed
qed

lemma greedy_loop_chain:
  "successively isTransitionCompatible path \<Longrightarrow> path \<noteq> [] \<Longrightarrow> last path = current \<Longrightarrow>
   successively isTransitionCompatible (greedy_loop path remaining current)"
proof (induction path remaining current rule: greedy_loop.induct)
  case (1 path remaining current)
  show ?case
  proof (cases "filter (isTransitionCompatible current) remaining")
    case Nil
    then show ?thesis using "1.prems" by (simp add: greedy_loop.simps [of path remaining current])
  next
    case (Cons first rest)
    define best where "best = pick_best current first rest"
    have ne: "remaining \<noteq> []" using Cons by auto
    have "best \<in> set (filter (isTransitionCompatible current) remaining)"
      unfolding Cons best_def by (rule pick_best_member)
    then have compat: "isTransitionCompatible current best" by simp
    have chain: "successively isTransitionCompatible (path @ [best])"
      using "1.prems" compat by (simp add: successively_append_iff)
    have "successively isTransitionCompatible
        (greedy_loop (path @ [best]) (Set_delete remaining best) best)"
      by (rule "1.IH" [OF ne Cons best_def chain]) simp_all
    then show ?thesis
      using ne Cons by (simp add: greedy_loop.simps [of path remaining current] best_def Let_def)
  qed
qed

lemma greedyPath_chain: "successively isTransitionCompatible (greedyPath s tracks)"
  unfolding greedyPath_def by (rule greedy_loop_chain) simp_all

lemma greedyPath_shape:
  "\<exists>ext. greedyPath s tracks = s # ext \<and> distinct ext
     \<and> set ext \<subseteq> {t \<in> set tracks. id_track t \<noteq> id_track s}"
proof -
  let ?R = "Set_new (filter (\<lambda>t. id_track t \<noteq> id_track s) tracks)"
  have "distinct ?R" by (simp add: Set_new_props)
  from greedy_loop_extends [OF this, of "[s]" s]
  show ?thesis by (auto simp: greedyPath_def Set_new_props)
qed

lemma greedyPath_nonempty: "greedyPath s tracks \<noteq> []"
  using greedyPath_shape [of s tracks] by auto

lemma greedyPath_distinct: "distinct (greedyPath s tracks)"
  using greedyPath_shape [of s tracks] by auto

lemma greedyPath_subset: "s \<in> set tracks \<Longrightarrow> set (greedyPath s tracks) \<subseteq> set tracks"
  using greedyPath_shape [of s tracks] by auto

section \<open>Selecting the first best element\<close>

text \<open>
  The selection of \<open>first_min\<close> over a linear order, in which the proofs are carried out;
  on finite numbers the two agree.
\<close>

definition least_first :: "('a \<Rightarrow> 'k::linorder) \<Rightarrow> 'a list \<Rightarrow> 'a option" where
  "least_first cost xs = find (\<lambda>c. \<forall>c' \<in> set xs. cost c \<le> cost c') xs"

lemma first_min_least_first:
  assumes "\<forall>x \<in> set xs. isFinite (cost x)"
  shows "first_min cost xs = least_first (\<lambda>x. number_real (cost x)) xs"
  unfolding first_min_def least_first_def
  by (rule find_cong) (use assms in \<open>auto simp: number_le_finite\<close>)

definition keep_smaller :: "('a \<Rightarrow> 'k::linorder) \<Rightarrow> 'a \<Rightarrow> 'a \<Rightarrow> 'a" where
  "keep_smaller cost b x = (if cost x < cost b then x else b)"

lemma find_append_cases:
  "find P (xs @ ys) = (case find P xs of Some x \<Rightarrow> Some x | None \<Rightarrow> find P ys)"
  by (induction xs) simp_all

lemma least_first_is_min:
  assumes "least_first cost xs = Some b"
  shows "b \<in> set xs \<and> (\<forall>c \<in> set xs. cost b \<le> cost c)"
  using assms unfolding least_first_def by (auto simp: find_Some_iff)

lemma least_first_snoc_smaller:
  assumes "least_first cost pre = Some b" and "cost x < cost b"
  shows "least_first cost (pre @ [x]) = Some x"
proof -
  let ?P = "\<lambda>c. \<forall>c' \<in> set (pre @ [x]). cost c \<le> cost c'"
  from least_first_is_min [OF assms(1)] have min: "\<forall>c \<in> set pre. cost b \<le> cost c" by simp
  have "\<not> ?P c" if "c \<in> set pre" for c
    using min that assms(2) by (auto simp: not_le intro: less_le_trans)
  then have "find ?P pre = None" by (simp add: find_None_iff)
  moreover have "?P x" using min assms(2) by (auto intro: less_imp_le less_le_trans)
  ultimately show ?thesis by (simp add: least_first_def find_append_cases)
qed

lemma least_first_snoc_keep:
  assumes "least_first cost pre = Some b" and "\<not> cost x < cost b"
  shows "least_first cost (pre @ [x]) = Some b"
proof -
  let ?P = "\<lambda>c. \<forall>c' \<in> set pre. cost c \<le> cost c'"
  let ?P' = "\<lambda>c. \<forall>c' \<in> set (pre @ [x]). cost c \<le> cost c'"
  from least_first_is_min [OF assms(1)] have min: "b \<in> set pre" "\<forall>c \<in> set pre. cost b \<le> cost c"
    by simp_all
  have "?P' c = ?P c" if "c \<in> set pre" for c
  proof
    assume "?P' c" then show "?P c" by simp
  next
    assume c: "?P c"
    then have "cost c \<le> cost b" using min(1) by blast
    also have "cost b \<le> cost x" using assms(2) by simp
    finally show "?P' c" using c by simp
  qed
  then have "find ?P' pre = find ?P pre" by (intro find_cong) simp_all
  then show ?thesis using assms(1) by (simp add: least_first_def find_append_cases)
qed

lemma least_first_foldl_general:
  "least_first cost pre = Some b \<Longrightarrow>
   least_first cost (pre @ xs) = Some (foldl (keep_smaller cost) b xs)"
proof (induction xs arbitrary: pre b)
  case Nil
  then show ?case by simp
next
  case (Cons x xs)
  have "least_first cost (pre @ [x]) = Some (keep_smaller cost b x)"
    using least_first_snoc_smaller [OF Cons.prems, of x] least_first_snoc_keep [OF Cons.prems, of x]
    by (simp add: keep_smaller_def)
  from Cons.IH [OF this] show ?case by simp
qed

lemma least_first_foldl: "least_first cost (b # xs) = Some (foldl (keep_smaller cost) b xs)"
  using least_first_foldl_general [of cost "[b]" b xs] by (simp add: least_first_def)

lemma least_first_nonempty: "xs \<noteq> [] \<Longrightarrow> \<exists>b. least_first cost xs = Some b"
  by (cases xs) (simp_all add: least_first_foldl)

section \<open>The greedy path is the reference greedy path\<close>

lemma finite_tempos_member: "finite_tempos A \<Longrightarrow> t \<in> set A \<Longrightarrow> isFinite (bpm_number t)"
  by (simp add: finite_tempos_def list_all_iff)

lemma pick_fold_keep_smaller:
  assumes "isFinite (abs_bpm_diff current b)"
    and "\<forall>x \<in> set rest. isFinite (abs_bpm_diff current x)"
  shows "foldl (pick_step current) (b, abs_bpm_diff current b) rest =
     (foldl (keep_smaller (\<lambda>x. number_real (abs_bpm_diff current x))) b rest,
      abs_bpm_diff current (foldl (keep_smaller (\<lambda>x. number_real (abs_bpm_diff current x))) b rest))"
  using assms
proof (induction rest arbitrary: b)
  case Nil
  show ?case by simp
next
  case (Cons x xs)
  let ?K = "\<lambda>x. number_real (abs_bpm_diff current x)"
  have step: "pick_step current (b, abs_bpm_diff current b) x
      = (keep_smaller ?K b x, abs_bpm_diff current (keep_smaller ?K b x))"
    using Cons.prems by (simp add: pick_step_def keep_smaller_def Let_def number_less_finite)
  have fin: "isFinite (abs_bpm_diff current (keep_smaller ?K b x))"
    using Cons.prems by (simp add: keep_smaller_def)
  from Cons.IH [OF fin] Cons.prems(2) step show ?case by simp
qed

lemma pick_best_first_min:
  assumes "\<forall>x \<in> set (first # rest). isFinite (abs_bpm_diff current x)"
  shows "first_min (abs_bpm_diff current) (first # rest) = Some (pick_best current first rest)"
  using assms
  by (simp add: first_min_least_first pick_best_def pick_fold_keep_smaller least_first_foldl)

lemma greedy_loop_spec:
  "distinct analyzed \<Longrightarrow> finite_tempos analyzed \<Longrightarrow> path \<noteq> [] \<Longrightarrow>
   set path \<subseteq> set analyzed \<Longrightarrow> current = last path \<Longrightarrow>
   remaining = filter (\<lambda>t. t \<notin> set path) analyzed \<Longrightarrow>
   greedy_loop path remaining current = spec_greedy analyzed path"
proof (induction path remaining current rule: greedy_loop.induct)
  case (1 path remaining current)
  have cur: "current \<in> set analyzed"
    using "1.prems"(3,4,5) by auto
  have fin: "isFinite (bpm_number t)" if "t \<in> set analyzed" for t
    using "1.prems"(2) that by (rule finite_tempos_member)
  have same: "legal_transition current t = isTransitionCompatible current t"
    if "t \<in> set analyzed" for t
    by (rule legal_transition_code) (rule abs_bpm_diff_finite [OF fin [OF cur] fin [OF that]])
  have "filter (isTransitionCompatible current) remaining
      = filter (\<lambda>t. t \<notin> set path \<and> isTransitionCompatible current t) analyzed"
    unfolding "1.prems"(6) by simp
  also have "\<dots> = filter (\<lambda>t. t \<notin> set path \<and> legal_transition current t) analyzed"
    by (rule filter_cong [OF refl]) (simp add: same)
  finally have cands: "filter (isTransitionCompatible current) remaining
      = filter (\<lambda>t. t \<notin> set path \<and> legal_transition (last path) t) analyzed"
    unfolding "1.prems"(5) .
  show ?case
  proof (cases "filter (isTransitionCompatible current) remaining")
    case Nil
    then have "spec_next analyzed path = None"
      using cands by (simp add: spec_next_def first_min_def)
    then show ?thesis
      using Nil by (simp add: greedy_loop.simps [of path remaining current]
          spec_greedy.simps [of analyzed path])
  next
    case (Cons first rest)
    define best where "best = pick_best current first rest"
    have ne: "remaining \<noteq> []" using Cons by auto
    have finc: "\<forall>x \<in> set (first # rest). isFinite (abs_bpm_diff current x)"
    proof
      fix x assume "x \<in> set (first # rest)"
      then have "x \<in> set (filter (isTransitionCompatible current) remaining)"
        unfolding Cons .
      then have x: "x \<in> set analyzed" "isTransitionCompatible current x"
        unfolding "1.prems"(6) by simp_all
      from compatible_diff_bounded [OF fin [OF cur] fin [OF x(1)] x(2)]
      show "isFinite (abs_bpm_diff current x)" by auto
    qed
    have "best \<in> set (filter (isTransitionCompatible current) remaining)"
      unfolding Cons best_def by (rule pick_best_member)
    then have best_mem: "best \<in> set analyzed"
      unfolding "1.prems"(6) by simp
    have "first_min (abs_bpm_diff current)
        (filter (\<lambda>t. t \<notin> set path \<and> legal_transition (last path) t) analyzed) = Some best"
      unfolding cands [symmetric] Cons best_def by (rule pick_best_first_min [OF finc])
    then have nxt: "spec_next analyzed path = Some best"
      unfolding spec_next_def "1.prems"(5) .
    have rem: "Set_delete remaining best = filter (\<lambda>t. t \<notin> set (path @ [best])) analyzed"
      using "1.prems"(6) by (auto simp: Set_delete_def removeAll_filter_not_eq intro: filter_cong)
    have sub: "set (path @ [best]) \<subseteq> set analyzed"
      using "1.prems"(4) best_mem by simp
    have "greedy_loop (path @ [best]) (Set_delete remaining best) best
        = spec_greedy analyzed (path @ [best])"
      by (rule "1.IH" [OF ne Cons best_def "1.prems"(1,2) _ sub _ rem]) simp_all
    then show ?thesis
      using ne Cons nxt
      by (simp add: greedy_loop.simps [of path remaining current]
          spec_greedy.simps [of analyzed path] best_def Let_def)
  qed
qed

lemma distinct_ids_distinct: "distinct (map id_track xs) \<Longrightarrow> distinct xs"
  by (rule distinct_map [THEN iffD1, THEN conjunct1])

lemma distinct_ids_filter:
  assumes "distinct (map id_track xs)" and "s \<in> set xs"
  shows "filter (\<lambda>t. id_track t \<noteq> id_track s) xs = filter (\<lambda>t. t \<notin> set [s]) xs"
proof (rule filter_cong [OF refl])
  fix t assume "t \<in> set xs"
  with assms have "id_track t = id_track s \<longleftrightarrow> t = s"
    by (auto simp: distinct_map dest: inj_onD)
  then show "(id_track t \<noteq> id_track s) = (t \<notin> set [s])" by simp
qed

lemma greedyPath_spec:
  assumes "distinct (map id_track analyzed)" and "finite_tempos analyzed" and "s \<in> set analyzed"
  shows "greedyPath s analyzed = spec_greedy analyzed [s]"
proof -
  have d: "distinct analyzed" using assms(1) by (rule distinct_ids_distinct)
  have "Set_new (filter (\<lambda>t. id_track t \<noteq> id_track s) analyzed)
      = filter (\<lambda>t. t \<notin> set [s]) analyzed"
    using d by (simp add: Set_new_distinct distinct_ids_filter [OF assms(1,3)])
  then show ?thesis
    unfolding greedyPath_def using greedy_loop_spec [OF d assms(2), of "[s]" s] assms(3) by simp
qed

section \<open>The path score\<close>

lemma score_fold_shift:
  "foldl (score_step (x # path)) acc (map Suc is) = foldl (score_step path) acc is"
  by (induction "is" arbitrary: acc) (simp_all add: score_step_def)

lemma score_fold:
  "foldl (score_step path) acc [0 ..< length path - 1] = spec_score_from acc path"
proof (induction acc path rule: spec_score_from.induct)
  case (1 acc x y rest)
  have upt: "[0 ..< length (x # y # rest) - 1] = 0 # map Suc [0 ..< length (y # rest) - 1]"
    by (simp add: upt_conv_Cons map_Suc_upt del: upt_Suc)
  have step: "score_step (x # y # rest) acc 0
      = number_add acc (number_mul (abs_bpm_diff x y) (abs_bpm_diff x y))"
    by (simp add: score_step_def Let_def)
  have "foldl (score_step (x # y # rest)) acc [0 ..< length (x # y # rest) - 1]
      = foldl (score_step (y # rest)) (score_step (x # y # rest) acc 0) [0 ..< length (y # rest) - 1]"
    unfolding upt by (simp only: foldl_Cons score_fold_shift)
  also have "\<dots> = spec_score_from (score_step (x # y # rest) acc 0) (y # rest)"
    unfolding step by (rule "1.IH")
  also have "\<dots> = spec_score_from acc (x # y # rest)"
    by (simp add: step)
  finally show ?case .
qed simp_all

lemma calculatePathScore_spec: "calculatePathScore path = spec_score path"
proof (cases "length path < 2")
  case True
  then have "path = [] \<or> (\<exists>x. path = [x])"
    by (cases path; cases "tl path") auto
  then show ?thesis by (auto simp: calculatePathScore_def spec_score_def)
next
  case False
  then show ?thesis
    using score_fold [of path "Num 0"] by (simp add: calculatePathScore_def spec_score_def)
qed

text \<open>
  Along a chain of compatible transitions between finite tempos every difference is at
  most 20, every square at most 400, and the running sum never overflows: the sum of a
  value up to \<open>2 ^ 63\<close> and a value up to 400 rounds to \<open>2 ^ 63\<close> at most. So the score of
  such a path is a finite number.
\<close>

lemma spec_score_from_bounded:
  "successively isTransitionCompatible p \<Longrightarrow> \<forall>t \<in> set p. isFinite (bpm_number t) \<Longrightarrow>
   0 \<le> a \<Longrightarrow> a \<le> 2 ^ 63 \<Longrightarrow>
   \<exists>s. spec_score_from (Num a) p = Num s \<and> 0 \<le> s \<and> s \<le> 2 ^ 63"
proof (induction p arbitrary: a)
  case Nil
  then show ?case by simp
next
  case (Cons x p)
  show ?case
  proof (cases p)
    case Nil
    with Cons.prems show ?thesis by simp
  next
    case (Cons y rest)
    have compat: "isTransitionCompatible x y" and chain: "successively isTransitionCompatible p"
      using Cons.prems(1) unfolding Cons by simp_all
    have fx: "isFinite (bpm_number x)" and fy: "isFinite (bpm_number y)"
      using Cons.prems(2) unfolding Cons by simp_all
    from compatible_diff_bounded [OF fx fy compat]
    obtain r where r: "abs_bpm_diff x y = Num r" "0 \<le> r" "r \<le> 20" by blast
    have "r * r \<le> 20 * 20" using r(2,3) by (intro mult_mono) simp_all
    then have rr: "0 \<le> r * r" "r * r \<le> 400" using r(2) by simp_all
    from round_double_bounded [OF rr round_double_400]
    obtain q where q: "round_double (r * r) = Num q" "0 \<le> q" "q \<le> 400" by blast
    have aq: "0 \<le> a + q" "a + q \<le> 2 ^ 63 + 400"
      using Cons.prems(3,4) q(2,3) by simp_all
    from round_double_bounded [OF aq round_double_sum_cap]
    obtain a' where a': "round_double (a + q) = Num a'" "0 \<le> a'" "a' \<le> 2 ^ 63" by blast
    have step: "spec_score_from (Num a) (x # p) = spec_score_from (Num a') p"
      unfolding Cons by (simp add: r(1) q(1) a'(1))
    from Cons.IH [OF chain _ a'(2,3)] Cons.prems(2)
    show ?thesis unfolding step by simp
  qed
qed

lemma calculatePathScore_finite:
  assumes "successively isTransitionCompatible p" and "\<forall>t \<in> set p. isFinite (bpm_number t)"
  shows "isFinite (calculatePathScore p)"
  using spec_score_from_bounded [OF assms, of 0]
  by (auto simp: calculatePathScore_spec spec_score_def)

section \<open>The search over the seeds\<close>

definition complete_step ::
  "Track list option \<times> number \<Rightarrow> Track list \<Rightarrow> Track list option \<times> number" where
  "complete_step acc p =
     (if number_less (calculatePathScore p) (snd acc) then (Some p, calculatePathScore p) else acc)"

definition partial_step :: "Track list \<Rightarrow> Track list \<Rightarrow> Track list" where
  "partial_step b p =
     (if length p > length b then p
      else if length p = length b \<and> length p > 0
          \<and> number_less (calculatePathScore p) (calculatePathScore b)
        then p
      else b)"

definition seed_paths :: "Track list \<Rightarrow> Track list list" where
  "seed_paths A = map (\<lambda>s. greedyPath s A) A"

text \<open>
  The ordered tracks of the general case: the best complete path if there is one, the best
  partial path otherwise.
\<close>

definition chosen_path :: "Track list \<Rightarrow> Track list" where
  "chosen_path A = (case bestCompletePath (search A) of Some p \<Rightarrow> p | None \<Rightarrow> bestPartialPath (search A))"

lemma search_step_complete:
  "(bestCompletePath (search_step A st s), bestCompleteScore (search_step A st s)) =
     (if length (greedyPath s A) = length A
      then complete_step (bestCompletePath st, bestCompleteScore st) (greedyPath s A)
      else (bestCompletePath st, bestCompleteScore st))"
  by (simp add: search_step_def complete_step_def Let_def)

lemma search_step_partial:
  "bestPartialPath (search_step A st s) =
     (if length (greedyPath s A) = length A then bestPartialPath st
      else partial_step (bestPartialPath st) (greedyPath s A))"
  by (simp add: search_step_def partial_step_def Let_def)

lemma search_foldl_complete:
  "(bestCompletePath (foldl (search_step A) st seeds),
    bestCompleteScore (foldl (search_step A) st seeds)) =
   foldl complete_step (bestCompletePath st, bestCompleteScore st)
     (filter (\<lambda>p. length p = length A) (map (\<lambda>s. greedyPath s A) seeds))"
proof (induction seeds arbitrary: st)
  case Nil
  show ?case by simp
next
  case (Cons s seeds)
  show ?case
    using Cons [of "search_step A st s"] search_step_complete [of A st s] by simp
qed

lemma search_foldl_partial:
  "bestPartialPath (foldl (search_step A) st seeds) =
   foldl partial_step (bestPartialPath st)
     (filter (\<lambda>p. length p \<noteq> length A) (map (\<lambda>s. greedyPath s A) seeds))"
proof (induction seeds arbitrary: st)
  case Nil
  show ?case by simp
next
  case (Cons s seeds)
  show ?case
    using Cons [of "search_step A st s"] search_step_partial [of A st s] by simp
qed

lemma search_complete_scan:
  "bestCompletePath (search A) =
     fst (foldl complete_step (None, Infinity) (filter (\<lambda>p. length p = length A) (seed_paths A)))"
  using search_foldl_complete
    [of A "\<lparr>bestCompletePath = None, bestCompleteScore = Infinity, bestPartialPath = []\<rparr>" A]
  by (simp add: search_def seed_paths_def prod_eq_iff)

lemma search_partial:
  "bestPartialPath (search A) =
     foldl partial_step [] (filter (\<lambda>p. length p \<noteq> length A) (seed_paths A))"
  using search_foldl_partial
    [of A "\<lparr>bestCompletePath = None, bestCompleteScore = Infinity, bestPartialPath = []\<rparr>" A]
  by (simp add: search_def seed_paths_def)

text \<open>Whatever the scores are, the search keeps paths it was given.\<close>

lemma complete_scan_member: "fst (foldl complete_step acc ps) \<in> insert (fst acc) (Some ` set ps)"
proof (induction ps arbitrary: acc)
  case Nil
  show ?case by simp
next
  case (Cons p ps)
  have "fst (complete_step acc p) = fst acc \<or> fst (complete_step acc p) = Some p"
    by (simp add: complete_step_def)
  with Cons [of "complete_step acc p"] show ?case by auto
qed

lemma partial_scan_member: "foldl partial_step b ps \<in> insert b (set ps)"
proof (induction ps arbitrary: b)
  case Nil
  show ?case by simp
next
  case (Cons p ps)
  have "partial_step b p = b \<or> partial_step b p = p" by (simp add: partial_step_def)
  with Cons [of "partial_step b p"] show ?case by auto
qed

lemma seed_path_props:
  assumes "p \<in> set (seed_paths A)"
  shows "p \<noteq> [] \<and> distinct p \<and> set p \<subseteq> set A \<and> successively isTransitionCompatible p"
proof -
  from assms obtain s where s: "s \<in> set A" "p = greedyPath s A"
    by (auto simp: seed_paths_def)
  show ?thesis
    unfolding s(2)
    using greedyPath_nonempty [of s A] greedyPath_distinct [of s A]
      greedyPath_subset [OF s(1)] greedyPath_chain [of s A]
    by simp
qed

lemma covering_length:
  assumes "distinct A" and "distinct p" and "set p \<subseteq> set A"
  shows "(length p = length A) = (set A \<subseteq> set p)"
proof
  assume "length p = length A"
  then have "card (set p) = card (set A)"
    using assms(1,2) by (simp add: distinct_card)
  with assms(3) have "set p = set A" by (simp add: card_subset_eq)
  then show "set A \<subseteq> set p" by simp
next
  assume "set A \<subseteq> set p"
  with assms(3) have "set p = set A" by auto
  then have "card (set p) = card (set A)" by simp
  then show "length p = length A"
    using assms(1,2) by (simp add: distinct_card)
qed

lemma chosen_path_cases:
  "(\<exists>p \<in> set (seed_paths A). chosen_path A = p \<and> bestCompletePath (search A) = Some p
       \<and> length p = length A)
   \<or> (bestCompletePath (search A) = None
       \<and> (chosen_path A = []
          \<or> (chosen_path A \<in> set (seed_paths A) \<and> length (chosen_path A) \<noteq> length A)))"
proof (cases "bestCompletePath (search A)")
  case None
  have "bestPartialPath (search A)
      \<in> insert [] (set (filter (\<lambda>p. length p \<noteq> length A) (seed_paths A)))"
    unfolding search_partial by (rule partial_scan_member)
  then show ?thesis
    using None by (auto simp: chosen_path_def)
next
  case (Some p)
  have "bestCompletePath (search A)
      \<in> insert None (Some ` set (filter (\<lambda>p. length p = length A) (seed_paths A)))"
    unfolding search_complete_scan
    using complete_scan_member
      [of "(None, Infinity)" "filter (\<lambda>p. length p = length A) (seed_paths A)"]
    by simp
  then show ?thesis
    using Some by (auto simp: chosen_path_def)
qed

lemma chosen_path_member: "chosen_path A \<in> insert [] (set (seed_paths A))"
  using chosen_path_cases [of A] by auto

lemma chosen_path_props:
  "distinct (chosen_path A) \<and> set (chosen_path A) \<subseteq> set A
   \<and> successively isTransitionCompatible (chosen_path A)"
  using chosen_path_member [of A] seed_path_props [of "chosen_path A" A] by auto

lemma findOptimalOrder_general:
  assumes "2 \<le> length (filter isTrackAnalyzed tracks)"
  shows "orderedTracks (findOptimalOrder tracks) = chosen_path (filter isTrackAnalyzed tracks)
   \<and> orphanTracks (findOptimalOrder tracks) =
       filter (\<lambda>t. id_track t \<notin> set (map id_track (chosen_path (filter isTrackAnalyzed tracks))))
         (filter isTrackAnalyzed tracks) @ filter (\<lambda>t. \<not> isTrackAnalyzed t) tracks
   \<and> transitions (findOptimalOrder tracks) =
       build_transitions (chosen_path (filter isTrackAnalyzed tracks))
   \<and> isComplete (findOptimalOrder tracks) =
       (bestCompletePath (search (filter isTrackAnalyzed tracks)) \<noteq> None
        \<and> filter (\<lambda>t. \<not> isTrackAnalyzed t) tracks = [])"
proof -
  have "(length (filter isTrackAnalyzed tracks) = 0) = False"
    "(length (filter isTrackAnalyzed tracks) = 1) = False"
    using assms by (auto simp del: length_0_conv)
  then show ?thesis
    unfolding findOptimalOrder_def Let_def chosen_path_def
    by (simp only: if_False OrderingResult.simps simp_thms length_0_conv)
qed

lemma findOptimalOrder_small:
  assumes "length (filter isTrackAnalyzed tracks) < 2"
  shows "orderedTracks (findOptimalOrder tracks) = filter isTrackAnalyzed tracks
   \<and> orphanTracks (findOptimalOrder tracks) = filter (\<lambda>t. \<not> isTrackAnalyzed t) tracks
   \<and> transitions (findOptimalOrder tracks) = []
   \<and> isComplete (findOptimalOrder tracks) = (filter (\<lambda>t. \<not> isTrackAnalyzed t) tracks = [])"
proof (cases "length (filter isTrackAnalyzed tracks) = 0")
  case True
  then show ?thesis by (simp add: findOptimalOrder_def Let_def)
next
  case False
  with assms have "length (filter isTrackAnalyzed tracks) = 1" by linarith
  then show ?thesis by (simp add: findOptimalOrder_def Let_def)
qed

section \<open>The search on finite tempos keeps the first best path\<close>

lemma seed_scores_finite:
  assumes "finite_tempos A" and "p \<in> set (seed_paths A)"
  shows "isFinite (calculatePathScore p)"
proof (rule calculatePathScore_finite)
  from seed_path_props [OF assms(2)]
  show "successively isTransitionCompatible p" by simp
  from seed_path_props [OF assms(2)] assms(1)
  show "\<forall>t \<in> set p. isFinite (bpm_number t)"
    by (auto dest: finite_tempos_member)
qed

lemma complete_scan_from_Some:
  assumes "isFinite (calculatePathScore b)" and "\<forall>p \<in> set ps. isFinite (calculatePathScore p)"
  shows "foldl complete_step (Some b, calculatePathScore b) ps =
     (Some (foldl (keep_smaller (\<lambda>p. number_real (calculatePathScore p))) b ps),
      calculatePathScore (foldl (keep_smaller (\<lambda>p. number_real (calculatePathScore p))) b ps))"
  using assms
proof (induction ps arbitrary: b)
  case Nil
  show ?case by simp
next
  case (Cons p ps)
  let ?S = "\<lambda>p. number_real (calculatePathScore p)"
  have step: "complete_step (Some b, calculatePathScore b) p
      = (Some (keep_smaller ?S b p), calculatePathScore (keep_smaller ?S b p))"
    using Cons.prems by (simp add: complete_step_def keep_smaller_def number_less_finite)
  have fin: "isFinite (calculatePathScore (keep_smaller ?S b p))"
    using Cons.prems by (simp add: keep_smaller_def)
  from Cons.IH [OF fin] Cons.prems(2) step show ?case by simp
qed

lemma complete_scan:
  assumes "\<forall>p \<in> set ps. isFinite (calculatePathScore p)"
  shows "fst (foldl complete_step (None, Infinity) ps) = first_min calculatePathScore ps"
proof (cases ps)
  case Nil
  then show ?thesis by (simp add: first_min_def)
next
  case (Cons p ps')
  have "number_less (calculatePathScore p) Infinity"
    using assms Cons by (cases "calculatePathScore p") simp_all
  then have "foldl complete_step (None, Infinity) (p # ps')
      = foldl complete_step (Some p, calculatePathScore p) ps'"
    by (simp add: complete_step_def)
  then show ?thesis
    using assms unfolding Cons
    by (simp add: complete_scan_from_Some first_min_least_first least_first_foldl)
qed

definition path_rank :: "Track list \<Rightarrow> int \<times> real" where
  "path_rank p = (- int (length p), number_real (calculatePathScore p))"

lemma partial_step_rank:
  "b \<noteq> [] \<Longrightarrow> p \<noteq> [] \<Longrightarrow> isFinite (calculatePathScore b) \<Longrightarrow> isFinite (calculatePathScore p) \<Longrightarrow>
   partial_step b p = keep_smaller path_rank b p"
  by (auto simp: partial_step_def keep_smaller_def path_rank_def less_prod_def number_less_finite)

lemma partial_scan_from_nonempty:
  "b \<noteq> [] \<Longrightarrow> isFinite (calculatePathScore b) \<Longrightarrow>
   \<forall>p \<in> set ps. p \<noteq> [] \<and> isFinite (calculatePathScore p) \<Longrightarrow>
   foldl partial_step b ps = foldl (keep_smaller path_rank) b ps"
proof (induction ps arbitrary: b)
  case Nil
  show ?case by simp
next
  case (Cons p ps)
  have step: "partial_step b p = keep_smaller path_rank b p"
    using Cons.prems by (simp add: partial_step_rank)
  have "keep_smaller path_rank b p \<noteq> []"
      "isFinite (calculatePathScore (keep_smaller path_rank b p))"
    using Cons.prems by (simp_all add: keep_smaller_def)
  from Cons.IH [OF this] Cons.prems(3) step show ?case by simp
qed

lemma partial_scan:
  assumes "ps \<noteq> []" and "\<forall>p \<in> set ps. p \<noteq> [] \<and> isFinite (calculatePathScore p)"
  shows "least_first path_rank ps = Some (foldl partial_step [] ps)"
proof -
  obtain p ps' where ps: "ps = p # ps'" using assms(1) by (cases ps) auto
  have "partial_step [] p = p" using assms(2) ps by (simp add: partial_step_def)
  then have "foldl partial_step [] ps = foldl (keep_smaller path_rank) p ps'"
    using assms(2) ps by (simp add: partial_scan_from_nonempty)
  then show ?thesis by (simp add: ps least_first_foldl)
qed

text \<open>Choosing the longest paths first and the lowest score among them is the first minimum of the rank.\<close>

lemma find_filter: "find Q (filter P xs) = find (\<lambda>x. P x \<and> Q x) xs"
  by (induction xs) simp_all

lemma least_first_rank_two_stage:
  "least_first path_rank ps =
     least_first (\<lambda>p. number_real (calculatePathScore p))
       (filter (\<lambda>p. \<forall>q \<in> set ps. length q \<le> length p) ps)"
proof -
  let ?long = "\<lambda>p. \<forall>q \<in> set ps. length q \<le> length p"
  let ?S = "\<lambda>p. number_real (calculatePathScore p)"
  have "(\<forall>c' \<in> set ps. path_rank c \<le> path_rank c')
      = (?long c \<and> (\<forall>c' \<in> set (filter ?long ps). ?S c \<le> ?S c'))"
    if c: "c \<in> set ps" for c
  proof
    assume min: "\<forall>c' \<in> set ps. path_rank c \<le> path_rank c'"
    have long: "?long c"
      using min by (auto simp: path_rank_def less_eq_prod_def split: if_splits)
    moreover have "?S c \<le> ?S c'" if "c' \<in> set (filter ?long ps)" for c'
    proof -
      from that c have "length c' = length c" using long by (auto intro: le_antisym)
      moreover from that min have "path_rank c \<le> path_rank c'" by simp
      ultimately show ?thesis by (simp add: path_rank_def less_eq_prod_def)
    qed
    ultimately show "?long c \<and> (\<forall>c' \<in> set (filter ?long ps). ?S c \<le> ?S c')"
      by blast
  next
    assume a: "?long c \<and> (\<forall>c' \<in> set (filter ?long ps). ?S c \<le> ?S c')"
    show "\<forall>c' \<in> set ps. path_rank c \<le> path_rank c'"
    proof
      fix c' assume c': "c' \<in> set ps"
      show "path_rank c \<le> path_rank c'"
      proof (cases "length c' = length c")
        case True
        then have "?long c'" using a by simp
        with c' a have "?S c \<le> ?S c'" by simp
        with True show ?thesis by (simp add: path_rank_def less_eq_prod_def)
      next
        case False
        with a c' have "length c' < length c" by (auto simp: le_neq_implies_less)
        then show ?thesis by (simp add: path_rank_def less_eq_prod_def)
      qed
    qed
  qed
  then have "find (\<lambda>c. \<forall>c' \<in> set ps. path_rank c \<le> path_rank c') ps
      = find (\<lambda>c. ?long c \<and> (\<forall>c' \<in> set (filter ?long ps). ?S c \<le> ?S c')) ps"
    by (intro find_cong) simp_all
  then show ?thesis
    unfolding least_first_def find_filter .
qed

lemma search_complete:
  assumes "finite_tempos A"
  shows "bestCompletePath (search A) =
     first_min calculatePathScore (filter (\<lambda>p. length p = length A) (seed_paths A))"
  unfolding search_complete_scan
  by (rule complete_scan) (use seed_scores_finite [OF assms] in auto)

lemma search_finite_cases:
  assumes "finite_tempos A"
  shows "(\<exists>p \<in> set (seed_paths A). chosen_path A = p \<and> bestCompletePath (search A) = Some p
       \<and> length p = length A)
   \<or> (bestCompletePath (search A) = None
       \<and> (\<forall>p \<in> set (seed_paths A). length p \<noteq> length A)
       \<and> chosen_path A = foldl partial_step [] (seed_paths A))"
proof (cases "bestCompletePath (search A)")
  case None
  have "filter (\<lambda>p. length p = length A) (seed_paths A) = []"
  proof (rule ccontr)
    assume ne: "filter (\<lambda>p. length p = length A) (seed_paths A) \<noteq> []"
    have fin: "\<forall>p \<in> set (filter (\<lambda>p. length p = length A) (seed_paths A)).
        isFinite (calculatePathScore p)"
      using seed_scores_finite [OF assms] by auto
    from least_first_nonempty [OF ne, of "\<lambda>p. number_real (calculatePathScore p)"]
      first_min_least_first [OF fin] None
    show False by (auto simp: search_complete [OF assms])
  qed
  then have none: "\<forall>p \<in> set (seed_paths A). length p \<noteq> length A"
    by (simp add: filter_empty_conv)
  then have "filter (\<lambda>p. length p \<noteq> length A) (seed_paths A) = seed_paths A"
    by (simp add: filter_id_conv)
  then show ?thesis
    using None none by (simp add: chosen_path_def search_partial)
next
  case (Some p)
  with chosen_path_cases [of A] show ?thesis by auto
qed

lemma complete_found_iff:
  assumes "finite_tempos A"
  shows "(bestCompletePath (search A) \<noteq> None)
     = (\<exists>s \<in> set A. length (greedyPath s A) = length A)"
  using search_finite_cases [OF assms] by (auto simp: seed_paths_def)

section \<open>The result of findOptimalOrder\<close>

lemma calculatePathScore_eq: "calculatePathScore = spec_score"
  by (rule ext) (rule calculatePathScore_spec)

lemma seed_paths_spec:
  assumes "distinct (map id_track A)" and "finite_tempos A"
  shows "seed_paths A = map (\<lambda>seed. spec_greedy A [seed]) A"
  unfolding seed_paths_def by (rule map_cong [OF refl]) (rule greedyPath_spec [OF assms])

lemma seed_paths_complete:
  assumes "distinct (map id_track A)"
  shows "filter (\<lambda>p. set A \<subseteq> set p) (seed_paths A) = filter (\<lambda>p. length p = length A) (seed_paths A)"
proof (rule filter_cong [OF refl])
  fix p assume "p \<in> set (seed_paths A)"
  from seed_path_props [OF this] distinct_ids_distinct [OF assms]
  show "(set A \<subseteq> set p) = (length p = length A)"
    using covering_length [of A p] by simp
qed

text \<open>
  For every batch of tracks with unique ids, at least two analyzed tracks and finite
  tempos, the ordered tracks returned by \<open>findOptimalOrder\<close> are the path chosen by the
  reference algorithm \<open>spec_order\<close>.
\<close>

lemma findOptimalOrder_reference:
  assumes "distinct (map id_track tracks)" and "2 \<le> length (filter isTrackAnalyzed tracks)"
    and "finite_tempos (filter isTrackAnalyzed tracks)"
  shows "spec_order (filter isTrackAnalyzed tracks) = Some (orderedTracks (findOptimalOrder tracks))"
proof -
  define A where "A = filter isTrackAnalyzed tracks"
  have dA: "distinct (map id_track A)"
    unfolding A_def using assms(1) by (rule distinct_map_filter)
  have fA: "finite_tempos A" using assms(3) by (simp add: A_def)
  have ne: "seed_paths A \<noteq> []"
    using assms(2) by (auto simp: seed_paths_def A_def)
  have ordered: "orderedTracks (findOptimalOrder tracks) = chosen_path A"
    using findOptimalOrder_general [OF assms(2)] by (simp add: A_def)
  have spec: "spec_order A =
      (if filter (\<lambda>p. length p = length A) (seed_paths A) \<noteq> []
       then first_min calculatePathScore (filter (\<lambda>p. length p = length A) (seed_paths A))
       else first_min calculatePathScore
              (filter (\<lambda>p. \<forall>q \<in> set (seed_paths A). length q \<le> length p) (seed_paths A)))"
    unfolding spec_order_def Let_def
    by (simp only: seed_paths_spec [OF dA fA, symmetric] seed_paths_complete [OF dA]
        calculatePathScore_eq)
  from search_finite_cases [OF fA] show ?thesis
  proof
    assume "\<exists>p \<in> set (seed_paths A). chosen_path A = p \<and> bestCompletePath (search A) = Some p
        \<and> length p = length A"
    then obtain p where p: "p \<in> set (seed_paths A)" "chosen_path A = p"
        "bestCompletePath (search A) = Some p" "length p = length A"
      by blast
    have "filter (\<lambda>p. length p = length A) (seed_paths A) \<noteq> []"
      using p(1,4) by (auto simp: filter_empty_conv)
    then have "spec_order A = Some p"
      using spec p(3) by (simp add: search_complete [OF fA])
    with ordered p(2) show ?thesis unfolding A_def by simp
  next
    assume none: "bestCompletePath (search A) = None
        \<and> (\<forall>p \<in> set (seed_paths A). length p \<noteq> length A)
        \<and> chosen_path A = foldl partial_step [] (seed_paths A)"
    then have empty: "filter (\<lambda>p. length p = length A) (seed_paths A) = []"
      by (simp add: filter_empty_conv)
    have props: "\<forall>p \<in> set (seed_paths A). p \<noteq> [] \<and> isFinite (calculatePathScore p)"
      using seed_path_props seed_scores_finite [OF fA] by blast
    from partial_scan [OF ne props] none
    have "least_first path_rank (seed_paths A) = Some (chosen_path A)" by simp
    then have "least_first (\<lambda>p. number_real (calculatePathScore p))
        (filter (\<lambda>p. \<forall>q \<in> set (seed_paths A). length q \<le> length p) (seed_paths A))
        = Some (chosen_path A)"
      by (simp add: least_first_rank_two_stage)
    moreover have "first_min calculatePathScore
        (filter (\<lambda>p. \<forall>q \<in> set (seed_paths A). length q \<le> length p) (seed_paths A))
        = least_first (\<lambda>p. number_real (calculatePathScore p))
        (filter (\<lambda>p. \<forall>q \<in> set (seed_paths A). length q \<le> length p) (seed_paths A))"
      by (rule first_min_least_first) (use props in auto)
    ultimately have "spec_order A = Some (chosen_path A)"
      using spec empty by simp
    with ordered show ?thesis unfolding A_def by simp
  qed
qed

text \<open>
  C1. The claim: the ordered tracks are the path chosen by the reference algorithm, which
  among the seeds whose path covers all analyzed tracks keeps the path of lowest score.
  In the batch of the two tracks \<open>NaN/8B\<close> and \<open>128/8B\<close> both count as analyzed. The
  reference algorithm finds no legal transition, the difference \<open>NaN\<close> being not at most
  20, and chooses the path of the first seed alone. The code takes the pair for
  compatible, since \<open>bpmDiff > 20\<close> is false of \<open>NaN\<close>, and builds from each seed a
  path that covers both tracks; the score of either is \<open>NaN\<close>, and \<open>score <
  bestCompleteScore\<close> is false of \<open>NaN\<close> against the initial \<open>Infinity\<close>, so no
  complete path is kept and the ordered tracks are empty: against the documentation of
  \<open>findOptimalOrder\<close> (\<open>keeps the best complete path found\<close>). For finite tempos the
  code returns the path of the reference algorithm (lemma \<open>findOptimalOrder_reference\<close>).
\<close>

theorem findOptimalOrder_nan_tempo:
  "orderedTracks (findOptimalOrder
      [createMockTrack ''1'' (Some NaN) (Some K8B), createMockTrack ''2'' (Some (Num 128)) (Some K8B)])
     = []
   \<and> spec_order (filter isTrackAnalyzed
      [createMockTrack ''1'' (Some NaN) (Some K8B), createMockTrack ''2'' (Some (Num 128)) (Some K8B)])
     = Some [createMockTrack ''1'' (Some NaN) (Some K8B)]
   \<and> greedyPath (createMockTrack ''1'' (Some NaN) (Some K8B))
      [createMockTrack ''1'' (Some NaN) (Some K8B), createMockTrack ''2'' (Some (Num 128)) (Some K8B)]
     = [createMockTrack ''1'' (Some NaN) (Some K8B), createMockTrack ''2'' (Some (Num 128)) (Some K8B)]
   \<and> calculatePathScore
      [createMockTrack ''1'' (Some NaN) (Some K8B), createMockTrack ''2'' (Some (Num 128)) (Some K8B)]
     = NaN"
  by code_simp

theorem findOptimalOrder_nan_tempo_witness:
  "orderedTracks (findOptimalOrder
      [createMockTrack ''1'' (Some NaN) (Some K8B), createMockTrack ''2'' (Some (Num 128)) (Some K8B)])
     = []"
  using findOptimalOrder_nan_tempo by (rule conjunct1)

lemma orphans_length:
  assumes "distinct (map id_track A)" and "distinct p" and "set p \<subseteq> set A"
  shows "length p + length (filter (\<lambda>t. id_track t \<notin> set (map id_track p)) A) = length A"
proof -
  have dA: "distinct A" using assms(1) by (rule distinct_ids_distinct)
  have inj: "inj_on id_track (set A)" using assms(1) by (simp add: distinct_map)
  have "filter (\<lambda>t. id_track t \<notin> set (map id_track p)) A = filter (\<lambda>t. t \<notin> set p) A"
  proof (rule filter_cong [OF refl])
    fix t assume "t \<in> set A"
    then have "id_track t \<in> id_track ` set p \<longleftrightarrow> t \<in> set p"
      using inj assms(3) by (auto dest: inj_onD)
    then show "(id_track t \<notin> set (map id_track p)) = (t \<notin> set p)" by simp
  qed
  moreover have "length (filter (\<lambda>t. t \<in> set p) A) = length p"
  proof -
    have "{t. t \<in> set p} \<inter> set A = set p" using assms(3) by auto
    then show ?thesis
      using dA assms(2) by (simp add: distinct_length_filter distinct_card)
  qed
  moreover have "length (filter (\<lambda>t. t \<in> set p) A) + length (filter (\<lambda>t. t \<notin> set p) A) = length A"
    using sum_length_filter_compl [of "\<lambda>t. t \<in> set p" A] by simp
  ultimately show ?thesis by simp
qed

text \<open>
  C2. \<open>findOptimalOrder\<close> is a total function: the model has no error branch, since the
  source raises nowhere (\<open>candidates[0]\<close> is read only when there is a candidate, and
  every index \<open>i + 1\<close> stays below the length of the array; both loops terminate, as the
  termination proofs of \<open>greedy_loop\<close> show). For every batch of tracks, the empty one
  included (ids unique within the batch, as the data model requires), the ordered and the
  orphan tracks together are as many as the input tracks; and for every input the number
  of transitions is the number of ordered tracks less one, or zero when there is none.
  Both hold whatever the tempos are, \<open>NaN\<close> and the infinities included.
\<close>

theorem findOptimalOrder_lengths:
  "(distinct (map id_track tracks) \<longrightarrow>
      length (orderedTracks (findOptimalOrder tracks))
        + length (orphanTracks (findOptimalOrder tracks)) = length tracks)
   \<and> int (length (transitions (findOptimalOrder tracks)))
       = max (int (length (orderedTracks (findOptimalOrder tracks))) - 1) 0"
proof -
  define A where "A = filter isTrackAnalyzed tracks"
  define U where "U = filter (\<lambda>t. \<not> isTrackAnalyzed t) tracks"
  have split: "length A + length U = length tracks"
    unfolding A_def U_def by (rule sum_length_filter_compl)
  show ?thesis
  proof (cases "length A < 2")
    case True
    from findOptimalOrder_small [OF True [unfolded A_def]] split True
    show ?thesis by (auto simp: A_def U_def)
  next
    case False
    then have two: "2 \<le> length (filter isTrackAnalyzed tracks)" by (simp add: A_def)
    note gen = findOptimalOrder_general [OF two]
    have trans: "int (length (transitions (findOptimalOrder tracks)))
       = max (int (length (orderedTracks (findOptimalOrder tracks))) - 1) 0"
      using gen by (auto simp: build_transitions_def)
    have "length (orderedTracks (findOptimalOrder tracks))
        + length (orphanTracks (findOptimalOrder tracks)) = length tracks"
      if d: "distinct (map id_track tracks)"
    proof -
      have dA: "distinct (map id_track A)"
        unfolding A_def using d by (rule distinct_map_filter)
      from orphans_length [OF dA, of "chosen_path A"] chosen_path_props [of A]
      have "length (chosen_path A)
          + length (filter (\<lambda>t. id_track t \<notin> set (map id_track (chosen_path A))) A) = length A"
        by simp
      with gen split show ?thesis by (simp add: A_def U_def)
    qed
    with trans show ?thesis by blast
  qed
qed

theorem findOptimalOrder_lengths_witness:
  "length (orderedTracks (findOptimalOrder
      [createMockTrack ''1'' (Some (Num 128)) (Some K8B),
       createMockTrack ''2'' (Some (Num 150)) (Some K8B), createMockTrack ''3'' None None]))
   + length (orphanTracks (findOptimalOrder
      [createMockTrack ''1'' (Some (Num 128)) (Some K8B),
       createMockTrack ''2'' (Some (Num 150)) (Some K8B), createMockTrack ''3'' None None])) = 3"
  using findOptimalOrder_lengths
    [of "[createMockTrack ''1'' (Some (Num 128)) (Some K8B),
       createMockTrack ''2'' (Some (Num 150)) (Some K8B), createMockTrack ''3'' None None]"]
  by (simp add: createMockTrack_def)

text \<open>
  In every result of \<open>findOptimalOrder\<close> each pair of adjacent ordered tracks satisfies the
  code's predicate \<open>isTransitionCompatible\<close>, whatever the tempos are and whether or not
  the result is complete; if the tempos of the analyzed tracks are finite, the pair is a
  legal transition.
\<close>

lemma ordered_successively_compatible:
  "successively isTransitionCompatible (orderedTracks (findOptimalOrder tracks))"
proof (cases "length (filter isTrackAnalyzed tracks) < 2")
  case True
  have "length (orderedTracks (findOptimalOrder tracks)) < 2"
    using findOptimalOrder_small [OF True] True by simp
  then show ?thesis
    by (cases "orderedTracks (findOptimalOrder tracks)"; cases "tl (orderedTracks (findOptimalOrder tracks))")
      auto
next
  case False
  then have "2 \<le> length (filter isTrackAnalyzed tracks)" by simp
  from findOptimalOrder_general [OF this] chosen_path_props [of "filter isTrackAnalyzed tracks"]
  show ?thesis by simp
qed

lemma ordered_subset_analyzed:
  "set (orderedTracks (findOptimalOrder tracks)) \<subseteq> set (filter isTrackAnalyzed tracks)"
proof (cases "length (filter isTrackAnalyzed tracks) < 2")
  case True
  from findOptimalOrder_small [OF True] show ?thesis by simp
next
  case False
  then have "2 \<le> length (filter isTrackAnalyzed tracks)" by simp
  from findOptimalOrder_general [OF this] chosen_path_props [of "filter isTrackAnalyzed tracks"]
  show ?thesis by simp
qed

lemma ordered_adjacent_compatible:
  assumes "Suc i < length (orderedTracks (findOptimalOrder tracks))"
  shows "isTransitionCompatible (orderedTracks (findOptimalOrder tracks) ! i)
     (orderedTracks (findOptimalOrder tracks) ! Suc i)
   \<and> (finite_tempos (filter isTrackAnalyzed tracks) \<longrightarrow>
        legal_transition (orderedTracks (findOptimalOrder tracks) ! i)
          (orderedTracks (findOptimalOrder tracks) ! Suc i))"
proof -
  let ?r = "orderedTracks (findOptimalOrder tracks)"
  from successively_nth [OF ordered_successively_compatible assms]
  have compat: "isTransitionCompatible (?r ! i) (?r ! Suc i)" .
  have i: "i < length ?r" using assms by simp
  have "?r ! i \<in> set ?r" "?r ! Suc i \<in> set ?r"
    by (rule nth_mem [OF i], rule nth_mem [OF assms])
  then have mem: "?r ! i \<in> set (filter isTrackAnalyzed tracks)"
      "?r ! Suc i \<in> set (filter isTrackAnalyzed tracks)"
    using ordered_subset_analyzed [of tracks] by blast+
  have "legal_transition (?r ! i) (?r ! Suc i)"
    if fin: "finite_tempos (filter isTrackAnalyzed tracks)"
  proof -
    have "abs_bpm_diff (?r ! i) (?r ! Suc i) \<noteq> NaN"
      by (rule abs_bpm_diff_finite) (rule finite_tempos_member [OF fin], rule mem)+
    from legal_transition_code [OF this] compat show ?thesis by simp
  qed
  with compat show ?thesis by blast
qed

text \<open>
  C5. The claim: every adjacent pair of the ordered tracks satisfies the legal-transition
  predicate (both analyzed, BPM difference at most 20, keys compatible). In the batch of
  the three tracks \<open>NaN/8B\<close>, \<open>128/8B\<close> and \<open>200/3A\<close> no seed covers all tracks, and the
  partial path kept is the first track followed by the second. Their BPM difference is
  \<open>NaN\<close>, which is not at most 20, so the pair is no legal transition; the code took it
  for compatible because \<open>bpmDiff > 20\<close> is false of \<open>NaN\<close>, against the documentation
  of \<open>isTransitionCompatible\<close> (\<open>BPM difference is \<le> 20\<close>): \<open>NaN\<close> is nowhere checked.
  For finite tempos every adjacent pair is a legal transition (lemma
  \<open>ordered_adjacent_compatible\<close>).
\<close>

theorem ordered_adjacent_nan_tempo:
  "orderedTracks (findOptimalOrder
      [createMockTrack ''1'' (Some NaN) (Some K8B), createMockTrack ''2'' (Some (Num 128)) (Some K8B),
       createMockTrack ''3'' (Some (Num 200)) (Some K3A)])
     = [createMockTrack ''1'' (Some NaN) (Some K8B), createMockTrack ''2'' (Some (Num 128)) (Some K8B)]
   \<and> legal_transition (createMockTrack ''1'' (Some NaN) (Some K8B))
        (createMockTrack ''2'' (Some (Num 128)) (Some K8B)) = False
   \<and> abs_bpm_diff (createMockTrack ''1'' (Some NaN) (Some K8B))
        (createMockTrack ''2'' (Some (Num 128)) (Some K8B)) = NaN
   \<and> isComplete (findOptimalOrder
      [createMockTrack ''1'' (Some NaN) (Some K8B), createMockTrack ''2'' (Some (Num 128)) (Some K8B),
       createMockTrack ''3'' (Some (Num 200)) (Some K3A)]) = False"
  by code_simp

lemma greedyPath_covers_iff:
  assumes "distinct (map id_track A)" and "s \<in> set A"
  shows "(length (greedyPath s A) = length A) = (set A \<subseteq> set (greedyPath s A))"
  using covering_length [OF distinct_ids_distinct [OF assms(1)] greedyPath_distinct
      greedyPath_subset [OF assms(2)]] .

text \<open>
  For every batch of tracks with unique ids, \<open>isComplete\<close> is true exactly when every
  input track is analyzed and is among the ordered tracks, whatever the tempos are. If
  the tempos of the analyzed tracks are finite, it is true exactly when the input has no
  unanalyzed track and the greedy path of some seed covers all analyzed tracks, where an
  input without analyzed tracks has nothing to cover.
\<close>

lemma isComplete_characterisation:
  assumes "distinct (map id_track tracks)"
  shows "isComplete (findOptimalOrder tracks)
      = (\<forall>t \<in> set tracks. isTrackAnalyzed t \<and> t \<in> set (orderedTracks (findOptimalOrder tracks)))
   \<and> (finite_tempos (filter isTrackAnalyzed tracks) \<longrightarrow>
       isComplete (findOptimalOrder tracks)
        = (filter (\<lambda>t. \<not> isTrackAnalyzed t) tracks = []
           \<and> (filter isTrackAnalyzed tracks = []
              \<or> (\<exists>seed \<in> set (filter isTrackAnalyzed tracks).
                    set (filter isTrackAnalyzed tracks)
                      \<subseteq> set (greedyPath seed (filter isTrackAnalyzed tracks))))))
   \<and> isComplete (findOptimalOrder [])"
proof -
  define A where "A = filter isTrackAnalyzed tracks"
  define U where "U = filter (\<lambda>t. \<not> isTrackAnalyzed t) tracks"
  define r where "r = findOptimalOrder tracks"
  have dA: "distinct (map id_track A)"
    unfolding A_def using assms by (rule distinct_map_filter)
  have U_empty: "(U = []) = (\<forall>t \<in> set tracks. isTrackAnalyzed t)"
    by (auto simp: U_def filter_empty_conv)
  have A_set: "set A = {t \<in> set tracks. isTrackAnalyzed t}"
    by (auto simp: A_def)
  have covers: "(\<exists>s \<in> set A. length (greedyPath s A) = length A)
      = (\<exists>s \<in> set A. set A \<subseteq> set (greedyPath s A))"
    using greedyPath_covers_iff [OF dA] by blast
  have empty: "isComplete (findOptimalOrder [])"
    by (simp add: findOptimalOrder_def)
  have main: "(finite_tempos A \<longrightarrow>
        isComplete r = (U = [] \<and> (A = [] \<or> (\<exists>s \<in> set A. set A \<subseteq> set (greedyPath s A)))))
      \<and> isComplete r = (\<forall>t \<in> set tracks. isTrackAnalyzed t \<and> t \<in> set (orderedTracks r))"
  proof (cases "length A < 2")
    case True
    from findOptimalOrder_small [OF True [unfolded A_def]]
    have small: "orderedTracks r = A" "isComplete r = (U = [])"
      by (simp_all add: r_def A_def U_def)
    have "A = [] \<or> (\<exists>s \<in> set A. set A \<subseteq> set (greedyPath s A))"
    proof (cases A)
      case Nil
      then show ?thesis by simp
    next
      case (Cons a as)
      with True have "A = [a]" by simp
      moreover have "a \<in> set (greedyPath a [a])"
        using greedyPath_shape [of a "[a]"] by auto
      ultimately show ?thesis by simp
    qed
    then show ?thesis
      using small U_empty A_set by auto
  next
    case False
    then have two: "2 \<le> length (filter isTrackAnalyzed tracks)" by (simp add: A_def)
    from findOptimalOrder_general [OF two]
    have gen: "orderedTracks r = chosen_path A"
        "isComplete r = (bestCompletePath (search A) \<noteq> None \<and> U = [])"
      by (simp_all add: r_def A_def U_def)
    have ne: "A \<noteq> []" using False by auto
    have first: "isComplete r = (U = [] \<and> (A = [] \<or> (\<exists>s \<in> set A. set A \<subseteq> set (greedyPath s A))))"
      if "finite_tempos A"
      using gen(2) ne complete_found_iff [OF that] covers by auto
    have found: "(bestCompletePath (search A) \<noteq> None) = (set A \<subseteq> set (chosen_path A))"
    proof
      assume "bestCompletePath (search A) \<noteq> None"
      with chosen_path_cases [of A] obtain p where p: "p \<in> set (seed_paths A)"
          "chosen_path A = p" "length p = length A"
        by auto
      from seed_path_props [OF p(1)] covering_length [OF distinct_ids_distinct [OF dA], of p] p(3)
      show "set A \<subseteq> set (chosen_path A)" by (simp add: p(2))
    next
      assume cov: "set A \<subseteq> set (chosen_path A)"
      show "bestCompletePath (search A) \<noteq> None"
      proof
        assume none: "bestCompletePath (search A) = None"
        with chosen_path_cases [of A]
        have "chosen_path A = []
            \<or> (chosen_path A \<in> set (seed_paths A) \<and> length (chosen_path A) \<noteq> length A)"
          by auto
        then show False
        proof
          assume "chosen_path A = []"
          with cov ne show False by simp
        next
          assume mem: "chosen_path A \<in> set (seed_paths A) \<and> length (chosen_path A) \<noteq> length A"
          then have "chosen_path A \<in> set (seed_paths A)" by simp
          from seed_path_props [OF this]
            covering_length [OF distinct_ids_distinct [OF dA], of "chosen_path A"] cov
          have "length (chosen_path A) = length A" by simp
          with mem show False by simp
        qed
      qed
    qed
    have second: "isComplete r = (\<forall>t \<in> set tracks. isTrackAnalyzed t \<and> t \<in> set (orderedTracks r))"
      using gen found U_empty A_set by auto
    from first second show ?thesis by simp
  qed
  from main empty show ?thesis
    unfolding A_def U_def r_def by blast
qed


section \<open>Facts about key labels\<close>

lemma musicalKeyToCamelot_examples:
  "musicalKeyToCamelot ''C major'' = Some (Key K8B)
   \<and> musicalKeyToCamelot ''A minor'' = Some (Key K8A)
   \<and> musicalKeyToCamelot ''F# major'' = Some (Key K2B)
   \<and> musicalKeyToCamelot ''invalid'' = None
   \<and> musicalKeyToCamelot ''  C major  '' = Some (Key K8B)
   \<and> musicalKeyToCamelot ''C MAJOR'' = Some (Key K8B)
   \<and> musicalKeyToCamelot ''am'' = Some (Key K8A)"
  by code_simp

lemma table_keys_trimmed: "list_all (\<lambda>(mapKey, camelot). trim mapKey = mapKey) CAMELOT_MAP"
  by code_simp

lemma table_keys_lower_distinct: "distinct (map (\<lambda>(mapKey, camelot). toLowerCase mapKey) CAMELOT_MAP)"
  by code_simp

lemma table_keys_not_inherited:
  "list_all (\<lambda>name. map_of CAMELOT_MAP name = None \<and> trim name = name) Object_prototype_names"
  by code_simp

lemma find_distinct_image:
  "distinct (map (\<lambda>(k, v). f k) xs) \<Longrightarrow> (n, c) \<in> set xs \<Longrightarrow>
   find (\<lambda>(k, v). f k = f n) xs = Some (n, c)"
  by (induction xs) (auto simp: image_iff)

lemma table_hit:
  assumes "map_of CAMELOT_MAP name = Some c"
  shows "trim name = name"
    and "find (\<lambda>(mapKey, camelot). toLowerCase mapKey = toLowerCase name) CAMELOT_MAP
         = Some (name, c)"
proof -
  from assms have mem: "(name, c) \<in> set CAMELOT_MAP" by (rule map_of_SomeD)
  with table_keys_trimmed show "trim name = name"
    by (auto simp: list_all_iff)
  from find_distinct_image [OF table_keys_lower_distinct mem]
  show "find (\<lambda>(mapKey, camelot). toLowerCase mapKey = toLowerCase name) CAMELOT_MAP
      = Some (name, c)" .
qed

lemma spec_resolve_hit: "map_of CAMELOT_MAP (trim label) = Some c \<Longrightarrow> spec_resolve label = Some c"
  using table_hit(2) [of "trim label" c] by (simp add: spec_resolve_def)

lemma musicalKeyToCamelot_outside_prototype:
  assumes "trim label \<notin> set Object_prototype_names"
  shows "musicalKeyToCamelot label = map_option Key (spec_resolve label)"
proof (cases "map_of CAMELOT_MAP label")
  case (Some c)
  with table_hit(1) [OF Some] spec_resolve_hit [of label c] show ?thesis
    by (simp add: musicalKeyToCamelot_def property_get_def)
next
  case None
  have "label \<notin> set Object_prototype_names"
  proof
    assume "label \<in> set Object_prototype_names"
    with table_keys_not_inherited have "trim label = label" by (auto simp: list_all_iff)
    with assms \<open>label \<in> set Object_prototype_names\<close> show False by simp
  qed
  with None have direct: "property_get label = None" by (simp add: property_get_def)
  show ?thesis
  proof (cases "map_of CAMELOT_MAP (trim label)")
    case (Some c)
    with spec_resolve_hit [OF Some] direct show ?thesis
      by (simp add: musicalKeyToCamelot_def property_get_def)
  next
    case None
    with assms have "property_get (trim label) = None" by (simp add: property_get_def)
    with direct show ?thesis
      by (auto simp: musicalKeyToCamelot_def spec_resolve_def Let_def split: option.splits)
  qed
qed

text \<open>
  C7. The claim: \<open>musicalKeyToCamelot\<close> resolves a label through the fixed table after
  trimming surrounding white space and ignoring case, and returns no mapping (\<open>null\<close>) for
  every label not in the table. The label \<open>constructor\<close> is not in the table, by any
  spelling of case or white space, and yet the result is not \<open>null\<close>: the lookup
  \<open>CAMELOT_MAP[key]\<close> finds the member that the table object inherits from
  \<open>Object.prototype\<close> and returns it. The examples of the claim and the general rule for
  every label that does not name an inherited member are the lemmas
  \<open>musicalKeyToCamelot_examples\<close> and \<open>musicalKeyToCamelot_outside_prototype\<close>.
\<close>

theorem musicalKeyToCamelot_inherited_member:
  "musicalKeyToCamelot ''constructor'' = Some (Inherited ''constructor'')
   \<and> map_of CAMELOT_MAP ''constructor'' = None
   \<and> find (\<lambda>(mapKey, camelot). toLowerCase mapKey = toLowerCase (trim ''constructor''))
        CAMELOT_MAP = None"
  by code_simp

section \<open>Connected components of the compatibility graph\<close>

text \<open>
  The relation that \<open>findCompatibleGroups\<close> tests between analyzed tracks, and the tracks
  reachable from a track along it.
\<close>

definition linked :: "Track list \<Rightarrow> (Track \<times> Track) set" where
  "linked A = {(x, y). x \<in> set A \<and> y \<in> set A \<and> isTransitionCompatible x y}"

definition reachable :: "Track list \<Rightarrow> Track \<Rightarrow> Track set" where
  "reachable A x = {y. (x, y) \<in> (linked A)\<^sup>*}"

lemma linked_sym: "sym (linked A)"
  by (auto simp: sym_def linked_def isTransitionCompatible_sym)

lemma reachable_refl: "x \<in> reachable A x"
  by (simp add: reachable_def)

lemma reachable_step: "x \<in> reachable A s \<Longrightarrow> (x, y) \<in> linked A \<Longrightarrow> y \<in> reachable A s"
  by (auto simp: reachable_def intro: rtrancl_into_rtrancl)

lemma reachable_eq: "x \<in> reachable A s \<Longrightarrow> reachable A x = reachable A s"
proof -
  assume x: "x \<in> reachable A s"
  then have sx: "(s, x) \<in> (linked A)\<^sup>*" by (simp add: reachable_def)
  then have xs: "(x, s) \<in> (linked A)\<^sup>*"
    using sym_rtrancl [OF linked_sym, of A] by (auto dest: symD)
  show ?thesis
    using sx xs by (auto simp: reachable_def intro: rtrancl_trans)
qed

lemma reachable_subset: "s \<in> set A \<Longrightarrow> reachable A s \<subseteq> set A"
proof
  fix y assume s: "s \<in> set A" and "y \<in> reachable A s"
  then have "(s, y) \<in> (linked A)\<^sup>*" by (simp add: reachable_def)
  then show "y \<in> set A"
    using s by (induction rule: rtrancl_induct) (auto simp: linked_def)
qed

lemma closed_contains_reachable:
  assumes "s \<in> S" and "\<forall>x \<in> S. \<forall>y. (x, y) \<in> linked A \<longrightarrow> y \<in> S"
  shows "reachable A s \<subseteq> S"
proof
  fix y assume "y \<in> reachable A s"
  then have "(s, y) \<in> (linked A)\<^sup>*" by (simp add: reachable_def)
  then show "y \<in> S"
    using assms by (induction rule: rtrancl_induct) auto
qed

section \<open>One pass over the candidates\<close>

lemma group_step_flag: "group_step st c \<noteq> st \<Longrightarrow> snd (snd (group_step st c))"
  by (cases st) (auto simp: group_step_def split: if_splits)

lemma group_step_flag_mono: "snd (snd st) \<Longrightarrow> snd (snd (group_step st c))"
  by (cases st) (auto simp: group_step_def)

lemma foldl_group_step_flag_mono: "snd (snd st) \<Longrightarrow> snd (snd (foldl group_step st cs))"
  by (induction cs arbitrary: st) (simp_all add: group_step_flag_mono)

lemma group_step_skipped:
  "group_step (g, a, False) c = (g, a, False) \<Longrightarrow>
   id_track c \<in> a \<or> \<not> list_ex (\<lambda>m. isTransitionCompatible m c) g"
  by (auto simp: group_step_def split: if_splits)

lemma pass_unchanged:
  assumes "\<not> snd (snd (foldl group_step (g, a, False) cs))"
  shows "foldl group_step (g, a, False) cs = (g, a, False)
     \<and> (\<forall>c \<in> set cs. id_track c \<in> a \<or> \<not> list_ex (\<lambda>m. isTransitionCompatible m c) g)"
  using assms
proof (induction cs)
  case Nil
  show ?case by simp
next
  case (Cons c cs)
  have same: "group_step (g, a, False) c = (g, a, False)"
  proof (rule ccontr)
    assume "group_step (g, a, False) c \<noteq> (g, a, False)"
    then have "snd (snd (group_step (g, a, False) c))" by (rule group_step_flag)
    then have "snd (snd (foldl group_step (group_step (g, a, False) c) cs))"
      by (rule foldl_group_step_flag_mono)
    with Cons.prems show False by simp
  qed
  with Cons.prems have "\<not> snd (snd (foldl group_step (g, a, False) cs))" by simp
  from Cons.IH [OF this] same group_step_skipped [OF same] show ?case by simp
qed

section \<open>Growing one group\<close>

definition group_inv :: "Track list \<Rightarrow> Track \<Rightarrow> string set \<Rightarrow> Track list \<Rightarrow> string set \<Rightarrow> bool" where
  "group_inv A seed a0 g a =
     (seed \<in> set g \<and> set g \<subseteq> set A \<and> set g \<subseteq> reachable A seed \<and> distinct g
      \<and> a = a0 \<union> id_track ` set g \<and> a0 \<inter> id_track ` set g = {})"

lemma group_step_inv:
  assumes "group_inv A seed a0 g a" and "c \<in> set A"
    and "group_step (g, a, ch) c = (g', a', ch')"
  shows "group_inv A seed a0 g' a'"
proof (cases "group_step (g, a, ch) c = (g, a, ch)")
  case True
  with assms show ?thesis by simp
next
  case False
  then have new: "id_track c \<notin> a" "list_ex (\<lambda>m. isTransitionCompatible m c) g"
      "g' = g @ [c]" "a' = insert (id_track c) a"
    using assms(3) by (auto simp: group_step_def split: if_splits)
  from new(2) obtain m where m: "m \<in> set g" "isTransitionCompatible m c"
    by (auto simp: list_ex_iff)
  have "(m, c) \<in> linked A"
    using m assms(1,2) by (auto simp: linked_def group_inv_def)
  moreover have "m \<in> reachable A seed"
    using m(1) assms(1) by (auto simp: group_inv_def)
  ultimately have comp: "c \<in> reachable A seed" by (rule reachable_step [rotated])
  have notin: "c \<notin> set g"
    using new(1) assms(1) by (auto simp: group_inv_def)
  show ?thesis
    using assms(1,2) new comp notin by (auto simp: group_inv_def)
qed

lemma foldl_group_step_inv:
  assumes "group_inv A seed a0 g a" and "set cs \<subseteq> set A"
    and "foldl group_step (g, a, ch) cs = (g', a', ch')"
  shows "group_inv A seed a0 g' a'"
  using assms
proof (induction cs arbitrary: g a ch)
  case Nil
  then show ?case by simp
next
  case (Cons c cs)
  obtain g1 a1 ch1 where step: "group_step (g, a, ch) c = (g1, a1, ch1)"
    by (cases "group_step (g, a, ch) c") auto
  from group_step_inv [OF Cons.prems(1) _ step] Cons.prems(2)
  have "group_inv A seed a0 g1 a1" by simp
  from Cons.IH [OF this] Cons.prems(2,3) step show ?case by simp
qed

lemma grow_group_inv:
  "group_inv A seed a0 g a \<Longrightarrow> grow_group A g a = (g', a') \<Longrightarrow>
   group_inv A seed a0 g' a'
   \<and> (\<forall>m \<in> set g'. \<forall>c \<in> set A. isTransitionCompatible m c \<longrightarrow> id_track c \<in> a')"
proof (induction A g a rule: grow_group.induct)
  case (1 A g a)
  obtain g1 a1 ch where pass: "group_pass A g a = (g1, a1, ch)"
    by (cases "group_pass A g a") auto
  then have fold: "foldl group_step (g, a, False) A = (g1, a1, ch)"
    by (simp add: group_pass_def)
  from foldl_group_step_inv [OF "1.prems"(1) _ fold]
  have inv1: "group_inv A seed a0 g1 a1" by simp
  show ?case
  proof (cases ch)
    case True
    with "1.prems"(2) pass have "grow_group A g1 a1 = (g', a')"
      by (simp add: grow_group.simps [of A g a])
    from "1.IH" [OF pass [symmetric] refl True inv1 this] show ?thesis .
  next
    case False
    with "1.prems"(2) pass have res: "g' = g1" "a' = a1"
      by (simp_all add: grow_group.simps [of A g a])
    from False fold have "\<not> snd (snd (foldl group_step (g, a, False) A))" by simp
    from pass_unchanged [OF this] fold
    have same: "g1 = g" "a1 = a"
      and skipped: "\<forall>c \<in> set A. id_track c \<in> a \<or> \<not> list_ex (\<lambda>m. isTransitionCompatible m c) g"
      by simp_all
    show ?thesis
      using inv1 skipped unfolding res same by (auto simp: list_ex_iff)
  qed
qed

section \<open>A grown group is a connected component\<close>

lemma ids_injective:
  "distinct (map id_track A) \<Longrightarrow> x \<in> set A \<Longrightarrow> y \<in> set A \<Longrightarrow>
   id_track x = id_track y \<Longrightarrow> x = y"
  by (auto simp: distinct_map dest: inj_onD)

lemma grow_group_reachable:
  assumes ids: "distinct (map id_track A)"
    and seed: "seed \<in> set A" "id_track seed \<notin> id_track ` S"
    and S: "S \<subseteq> set A" "\<forall>x \<in> S. \<forall>y. (x, y) \<in> linked A \<longrightarrow> y \<in> S"
    and grow: "grow_group A [seed] (insert (id_track seed) (id_track ` S)) = (g, a)"
  shows "set g = reachable A seed \<and> distinct g \<and> a = id_track ` (S \<union> set g) \<and> S \<inter> set g = {}"
proof -
  have "group_inv A seed (id_track ` S) [seed] (insert (id_track seed) (id_track ` S))"
    using seed by (auto simp: group_inv_def reachable_refl)
  from grow_group_inv [OF this grow]
  have inv: "group_inv A seed (id_track ` S) g a"
    and closed: "\<forall>m \<in> set g. \<forall>c \<in> set A. isTransitionCompatible m c \<longrightarrow> id_track c \<in> a"
    by simp_all
  from inv have g: "seed \<in> set g" "set g \<subseteq> set A" "set g \<subseteq> reachable A seed" "distinct g"
      "a = id_track ` S \<union> id_track ` set g" "id_track ` S \<inter> id_track ` set g = {}"
    by (simp_all add: group_inv_def)
  have disjoint: "S \<inter> set g = {}" using g(6) by auto
  have "\<forall>x \<in> set g. \<forall>y. (x, y) \<in> linked A \<longrightarrow> y \<in> set g"
  proof (intro ballI allI impI)
    fix x y assume x: "x \<in> set g" and xy: "(x, y) \<in> linked A"
    then have y: "y \<in> set A" and compat: "isTransitionCompatible x y"
      by (simp_all add: linked_def)
    from closed x y compat have "id_track y \<in> a" by blast
    then have "id_track y \<in> id_track ` S \<or> id_track y \<in> id_track ` set g"
      using g(5) by auto
    then show "y \<in> set g"
    proof
      assume "id_track y \<in> id_track ` S"
      then obtain z where z: "z \<in> S" "id_track y = id_track z" by auto
      with ids_injective [OF ids y, of z] S(1) have "y \<in> S" by auto
      moreover have "(y, x) \<in> linked A"
        using xy linked_sym [of A] by (auto dest: symD)
      ultimately have "x \<in> S" using S(2) by blast
      with x disjoint show ?thesis by auto
    next
      assume "id_track y \<in> id_track ` set g"
      then obtain z where z: "z \<in> set g" "id_track y = id_track z" by auto
      with ids_injective [OF ids y, of z] g(2) show ?thesis by auto
    qed
  qed
  from closed_contains_reachable [OF g(1) this] g(3)
  have "set g = reachable A seed" by auto
  then show ?thesis
    using g(4,5) disjoint by (auto simp: image_Un)
qed

section \<open>The groups partition the analyzed tracks into components\<close>

definition groups_inv :: "Track list \<Rightarrow> Track list list \<times> string set \<Rightarrow> bool" where
  "groups_inv A st =
     (snd st = id_track ` set (concat (fst st))
      \<and> set (concat (fst st)) \<subseteq> set A
      \<and> distinct (concat (fst st))
      \<and> (\<forall>x \<in> set (concat (fst st)). \<forall>y. (x, y) \<in> linked A \<longrightarrow> y \<in> set (concat (fst st)))
      \<and> (\<forall>g \<in> set (fst st). g \<noteq> [] \<and> (\<forall>x \<in> set g. set g = reachable A x)))"

lemma groups_inv_extend:
  assumes ids: "distinct (map id_track A)" and inv: "groups_inv A (gs, a)" and t: "t \<in> set A"
    and new: "id_track t \<notin> a"
    and grow: "grow_group A [t] (insert (id_track t) a) = (g, a')"
  shows "groups_inv A (gs @ [g], a') \<and> id_track t \<in> a' \<and> a \<subseteq> a'"
proof -
  define S where "S = set (concat gs)"
  from inv have a: "a = id_track ` S" and sub: "S \<subseteq> set A" and dist: "distinct (concat gs)"
    and closed: "\<forall>x \<in> S. \<forall>y. (x, y) \<in> linked A \<longrightarrow> y \<in> S"
    and comps: "\<forall>g \<in> set gs. g \<noteq> [] \<and> (\<forall>x \<in> set g. set g = reachable A x)"
    unfolding groups_inv_def S_def by simp_all
  have nid: "id_track t \<notin> id_track ` S" using new unfolding a .
  have grow': "grow_group A [t] (insert (id_track t) (id_track ` S)) = (g, a')"
    using grow unfolding a .
  note res = grow_group_reachable [OF ids t nid sub closed grow']
  from res have g1: "set g = reachable A t" by (rule conjunct1)
  from res have g2: "distinct g" by blast
  from res have g3: "a' = id_track ` (S \<union> set g)" by blast
  from res have g4: "S \<inter> set g = {}" by blast
  have tg: "t \<in> set g" unfolding g1 by (rule reachable_refl)
  have cat: "set (concat (gs @ [g])) = S \<union> set g" by (simp add: S_def)
  have "groups_inv A (gs @ [g], a')"
    unfolding groups_inv_def fst_conv snd_conv cat
  proof (intro conjI)
    show "a' = id_track ` (S \<union> set g)" by (rule g3)
    show "S \<union> set g \<subseteq> set A"
      using sub reachable_subset [OF t] unfolding g1 by blast
    show "distinct (concat (gs @ [g]))"
      using dist g2 g4 by (simp add: S_def)
    show "\<forall>x \<in> S \<union> set g. \<forall>y. (x, y) \<in> linked A \<longrightarrow> y \<in> S \<union> set g"
      using closed reachable_step [of _ A t] unfolding g1 by blast
    show "\<forall>h \<in> set (gs @ [g]). h \<noteq> [] \<and> (\<forall>x \<in> set h. set h = reachable A x)"
    proof
      fix h assume "h \<in> set (gs @ [g])"
      then have "h \<in> set gs \<or> h = g" by auto
      then show "h \<noteq> [] \<and> (\<forall>x \<in> set h. set h = reachable A x)"
      proof
        assume "h \<in> set gs"
        with comps show ?thesis by blast
      next
        assume h: "h = g"
        have "g \<noteq> []" using tg by auto
        moreover have "\<forall>x \<in> set g. set g = reachable A x"
          using reachable_eq [of _ A t] unfolding g1 by blast
        ultimately show ?thesis unfolding h by blast
      qed
    qed
  qed
  moreover have "id_track t \<in> a'" unfolding g3 using tg by blast
  moreover have "a \<subseteq> a'" unfolding a g3 by blast
  ultimately show ?thesis by blast
qed

lemma groups_step_inv:
  assumes ids: "distinct (map id_track A)" and inv: "groups_inv A st" and t: "t \<in> set A"
  shows "groups_inv A (groups_step A st t) \<and> id_track t \<in> snd (groups_step A st t)
     \<and> snd st \<subseteq> snd (groups_step A st t)"
proof -
  obtain gs a where st: "st = (gs, a)" by (cases st)
  show ?thesis
  proof (cases "id_track t \<in> a")
    case True
    then show ?thesis using inv by (simp add: st groups_step_def)
  next
    case False
    obtain g a' where grow: "grow_group A [t] (insert (id_track t) a) = (g, a')"
      by (cases "grow_group A [t] (insert (id_track t) a)") auto
    have step: "groups_step A (gs, a) t = (gs @ [g], a')"
      using False grow by (simp add: groups_step_def)
    from groups_inv_extend [OF ids inv [unfolded st] t False grow]
    show ?thesis unfolding st step by simp
  qed
qed

lemma groups_fold_inv:
  assumes "distinct (map id_track A)" and "groups_inv A st" and "set ts \<subseteq> set A"
  shows "groups_inv A (foldl (groups_step A) st ts)
     \<and> snd st \<union> id_track ` set ts \<subseteq> snd (foldl (groups_step A) st ts)"
  using assms(2,3)
proof (induction ts arbitrary: st)
  case Nil
  then show ?case by simp
next
  case (Cons t ts)
  from groups_step_inv [OF assms(1) Cons.prems(1), of t] Cons.prems(2)
  have step: "groups_inv A (groups_step A st t)" "id_track t \<in> snd (groups_step A st t)"
      "snd st \<subseteq> snd (groups_step A st t)"
    by simp_all
  from Cons.IH [OF step(1)] Cons.prems(2) step(2,3) show ?case by auto
qed

lemma groups_result:
  assumes "distinct (map id_track A)"
  shows "groups_inv A (foldl (groups_step A) ([], {}) A)
     \<and> set (concat (fst (foldl (groups_step A) ([], {}) A))) = set A"
proof -
  define r where "r = foldl (groups_step A) ([], {}) A"
  define S where "S = set (concat (fst r))"
  have "groups_inv A ([], {})" by (simp add: groups_inv_def)
  from groups_fold_inv [OF assms this, of A]
  have inv: "groups_inv A r" and all: "id_track ` set A \<subseteq> snd r"
    unfolding r_def by simp_all
  from inv have a: "snd r = id_track ` S" and sub: "S \<subseteq> set A"
    unfolding groups_inv_def S_def by simp_all
  have "set A \<subseteq> S"
  proof
    fix t assume t: "t \<in> set A"
    with all have "id_track t \<in> id_track ` S" unfolding a by blast
    then obtain z where z: "z \<in> S" "id_track t = id_track z" by blast
    with sub have "z \<in> set A" by blast
    from ids_injective [OF assms t this z(2)] z(1) show "t \<in> S" by simp
  qed
  with sub have "S = set A" by blast
  with inv show ?thesis unfolding S_def r_def by blast
qed

lemma distinct_concat_sort:
  assumes "distinct (concat gs)" and "\<forall>g \<in> set gs. g \<noteq> []"
  shows "distinct (concat (sort_key f gs))"
proof -
  have no_empty: "removeAll [] gs = gs" "removeAll [] (sort_key f gs) = sort_key f gs"
    using assms(2) by (auto simp: removeAll_id)
  from assms(1) have "distinct gs \<and> (\<forall>ys. ys \<in> set gs \<longrightarrow> distinct ys)
      \<and> (\<forall>ys zs. ys \<in> set gs \<and> zs \<in> set gs \<and> ys \<noteq> zs \<longrightarrow> set ys \<inter> set zs = {})"
    unfolding distinct_concat_iff no_empty(1) .
  then show ?thesis
    unfolding distinct_concat_iff no_empty(2) by simp
qed

lemma sort_by_size_sorted: "sorted_wrt (\<lambda>g h. length h \<le> length g) (sort_by_size gs)"
proof -
  have "sorted (map (\<lambda>g. - int (length g)) (sort_key (\<lambda>g. - int (length g)) gs))"
    by (rule sorted_sort_key)
  then show ?thesis
    by (simp add: sort_by_size_def sorted_map)
qed

text \<open>
  For every batch of tracks with unique ids, whatever the tempos are, the groups returned
  by \<open>findCompatibleGroups\<close> are the connected components of the analyzed tracks under
  the relation that the code tests: the groups, as sets, are the classes of reachability;
  no track occurs twice in the groups; every group is non-empty and holds analyzed tracks
  only; and the groups are sorted by descending size.
\<close>

lemma findCompatibleGroups_reachable:
  assumes "distinct (map id_track tracks)"
  shows "set ` set (findCompatibleGroups tracks)
       = reachable (filter isTrackAnalyzed tracks) ` set (filter isTrackAnalyzed tracks)
     \<and> distinct (concat (findCompatibleGroups tracks))
     \<and> (\<forall>g \<in> set (findCompatibleGroups tracks). g \<noteq> [] \<and> (\<forall>t \<in> set g. isTrackAnalyzed t))
     \<and> sorted_wrt (\<lambda>g h. length h \<le> length g) (findCompatibleGroups tracks)"
proof (cases "filter isTrackAnalyzed tracks = []")
  case True
  then show ?thesis by (simp add: findCompatibleGroups_def)
next
  case False
  define A where "A = filter isTrackAnalyzed tracks"
  define gs where "gs = fst (foldl (groups_step A) ([], {}) A)"
  have G: "findCompatibleGroups tracks = sort_by_size gs"
    using False by (simp add: findCompatibleGroups_def gs_def A_def Let_def)
  have dA: "distinct (map id_track A)"
    unfolding A_def using assms by (rule distinct_map_filter)
  from groups_result [OF dA]
  have cover: "set (concat gs) = set A" and dist: "distinct (concat gs)"
    and comps: "\<forall>g \<in> set gs. g \<noteq> [] \<and> (\<forall>x \<in> set g. set g = reachable A x)"
    unfolding gs_def groups_inv_def by simp_all
  have set_G: "set (sort_by_size gs) = set gs" by (simp add: sort_by_size_def)
  have sub: "set g \<subseteq> set A" if "g \<in> set gs" for g
    using that cover by auto
  have "set ` set gs = reachable A ` set A"
  proof (intro equalityI subsetI)
    fix s assume "s \<in> set ` set gs"
    then obtain g where g: "g \<in> set gs" "s = set g" by auto
    with comps obtain x where x: "x \<in> set g" by (cases g) auto
    with comps g have "s = reachable A x" by blast
    moreover have "x \<in> set A" using sub [OF g(1)] x by blast
    ultimately show "s \<in> reachable A ` set A" by blast
  next
    fix s assume "s \<in> reachable A ` set A"
    then obtain x where x: "x \<in> set A" "s = reachable A x" by auto
    with cover obtain g where g: "g \<in> set gs" "x \<in> set g" by auto
    with comps x show "s \<in> set ` set gs" by blast
  qed
  moreover have "distinct (concat (sort_by_size gs))"
    unfolding sort_by_size_def using dist comps by (intro distinct_concat_sort) blast+
  moreover have "\<forall>g \<in> set gs. g \<noteq> [] \<and> (\<forall>t \<in> set g. isTrackAnalyzed t)"
    using comps sub by (auto simp: A_def)
  ultimately show ?thesis
    unfolding G set_G A_def [symmetric] using sort_by_size_sorted [of gs] by blast
qed

text \<open>
  If the tempos of the analyzed tracks are finite, the relation that the code tests is the
  legal-transition relation, and the groups are its connected components.
\<close>

lemma linked_finite:
  assumes "finite_tempos A"
  shows "linked A = compat_rel A"
proof -
  have "legal_transition x y = isTransitionCompatible x y" if "x \<in> set A" "y \<in> set A" for x y
    by (rule legal_transition_code)
      (rule abs_bpm_diff_finite [OF finite_tempos_member [OF assms that(1)]
          finite_tempos_member [OF assms that(2)]])
  then show ?thesis by (auto simp: linked_def compat_rel_def)
qed

lemma findCompatibleGroups_components:
  assumes "distinct (map id_track tracks)" and "finite_tempos (filter isTrackAnalyzed tracks)"
  shows "set ` set (findCompatibleGroups tracks)
       = component (filter isTrackAnalyzed tracks) ` set (filter isTrackAnalyzed tracks)
     \<and> distinct (concat (findCompatibleGroups tracks))
     \<and> (\<forall>g \<in> set (findCompatibleGroups tracks). g \<noteq> [] \<and> (\<forall>t \<in> set g. isTrackAnalyzed t))
     \<and> sorted_wrt (\<lambda>g h. length h \<le> length g) (findCompatibleGroups tracks)"
proof -
  have "reachable (filter isTrackAnalyzed tracks) = component (filter isTrackAnalyzed tracks)"
    by (rule ext) (simp add: reachable_def component_def linked_finite [OF assms(2)])
  with findCompatibleGroups_reachable [OF assms(1)] show ?thesis by simp
qed

lemma findCompatibleGroups_example:
  "findCompatibleGroups
      [createMockTrack ''4'' (Some (Num 200)) (Some K3A),
       createMockTrack ''1'' (Some (Num 128)) (Some K8B), createMockTrack ''5'' None None,
       createMockTrack ''2'' (Some (Num 130)) (Some K9B),
       createMockTrack ''3'' (Some (Num 132)) (Some K10B)]
     = [[createMockTrack ''1'' (Some (Num 128)) (Some K8B),
         createMockTrack ''2'' (Some (Num 130)) (Some K9B),
         createMockTrack ''3'' (Some (Num 132)) (Some K10B)],
        [createMockTrack ''4'' (Some (Num 200)) (Some K3A)]]"
  by code_simp

text \<open>Where no two different tracks form a legal transition, every component is a single track.\<close>

lemma component_singleton:
  assumes "\<forall>x \<in> set A. \<forall>y \<in> set A. legal_transition x y \<longrightarrow> x = y"
  shows "component A x = {x}"
proof -
  have "y = x" if "(x, y) \<in> (compat_rel A)\<^sup>*" for y
    using that assms by (induction rule: rtrancl_induct) (auto simp: compat_rel_def)
  then show ?thesis by (auto simp: component_def)
qed

text \<open>
  C10. The claim: the groups are the connected components of the analyzed tracks under
  the legal-transition relation closed transitively. In the batch of the three tracks
  \<open>NaN/8B\<close>, \<open>128/8B\<close> and \<open>200/8B\<close> no two different tracks form a legal
  transition: the differences are \<open>NaN\<close>, \<open>NaN\<close> and 72, none at most 20, so each track
  is a component of its own.
  The code returns one group of all three: it takes the first track for compatible with
  either of the others, since \<open>bpmDiff > 20\<close> is false of \<open>NaN\<close>, against the
  documentation of \<open>isTransitionCompatible\<close> (\<open>BPM difference is \<le> 20\<close>):
  \<open>NaN\<close> is nowhere checked. For finite tempos the groups are the components (lemma
  \<open>findCompatibleGroups_components\<close>), and for all tempos they are the components of the
  relation that the code tests (lemma \<open>findCompatibleGroups_reachable\<close>).
\<close>

theorem findCompatibleGroups_nan_tempo:
  "findCompatibleGroups
      [createMockTrack ''1'' (Some NaN) (Some K8B), createMockTrack ''2'' (Some (Num 128)) (Some K8B),
       createMockTrack ''3'' (Some (Num 200)) (Some K8B)]
     = [[createMockTrack ''1'' (Some NaN) (Some K8B), createMockTrack ''2'' (Some (Num 128)) (Some K8B),
         createMockTrack ''3'' (Some (Num 200)) (Some K8B)]]
   \<and> component (filter isTrackAnalyzed
      [createMockTrack ''1'' (Some NaN) (Some K8B), createMockTrack ''2'' (Some (Num 128)) (Some K8B),
       createMockTrack ''3'' (Some (Num 200)) (Some K8B)])
        (createMockTrack ''1'' (Some NaN) (Some K8B))
     = {createMockTrack ''1'' (Some NaN) (Some K8B)}
   \<and> component (filter isTrackAnalyzed
      [createMockTrack ''1'' (Some NaN) (Some K8B), createMockTrack ''2'' (Some (Num 128)) (Some K8B),
       createMockTrack ''3'' (Some (Num 200)) (Some K8B)])
        (createMockTrack ''2'' (Some (Num 128)) (Some K8B))
     = {createMockTrack ''2'' (Some (Num 128)) (Some K8B)}
   \<and> component (filter isTrackAnalyzed
      [createMockTrack ''1'' (Some NaN) (Some K8B), createMockTrack ''2'' (Some (Num 128)) (Some K8B),
       createMockTrack ''3'' (Some (Num 200)) (Some K8B)])
        (createMockTrack ''3'' (Some (Num 200)) (Some K8B))
     = {createMockTrack ''3'' (Some (Num 200)) (Some K8B)}"
proof -
  let ?A = "filter isTrackAnalyzed
      [createMockTrack ''1'' (Some NaN) (Some K8B), createMockTrack ''2'' (Some (Num 128)) (Some K8B),
       createMockTrack ''3'' (Some (Num 200)) (Some K8B)]"
  have groups: "findCompatibleGroups
      [createMockTrack ''1'' (Some NaN) (Some K8B), createMockTrack ''2'' (Some (Num 128)) (Some K8B),
       createMockTrack ''3'' (Some (Num 200)) (Some K8B)]
     = [[createMockTrack ''1'' (Some NaN) (Some K8B), createMockTrack ''2'' (Some (Num 128)) (Some K8B),
         createMockTrack ''3'' (Some (Num 200)) (Some K8B)]]"
    by code_simp
  have "list_all (\<lambda>x. list_all (\<lambda>y. legal_transition x y \<longrightarrow> x = y) ?A) ?A"
    by code_simp
  then have "\<forall>x \<in> set ?A. \<forall>y \<in> set ?A. legal_transition x y \<longrightarrow> x = y"
    unfolding list_all_iff .
  then have "component ?A x = {x}" for x
    by (rule component_singleton)
  with groups show ?thesis by simp
qed

section \<open>The scenarios of the specification\<close>

text \<open>The literal scenarios of the specification, evaluated on the model of the code.\<close>

lemma scenario_empty:
  "findOptimalOrder [] = \<lparr>orderedTracks = [], orphanTracks = [], transitions = [], isComplete = True\<rparr>"
  by (simp add: findOptimalOrder_def)

lemma scenario_single:
  "findOptimalOrder [createMockTrack ''1'' (Some (Num 128)) (Some K8B)] =
     \<lparr>orderedTracks = [createMockTrack ''1'' (Some (Num 128)) (Some K8B)], orphanTracks = [],
      transitions = [], isComplete = True\<rparr>"
  by (simp add: findOptimalOrder_def createMockTrack_def isTrackAnalyzed_def)

lemma scenario_three:
  "map id_track (orderedTracks (findOptimalOrder
      [createMockTrack ''1'' (Some (Num 128)) (Some K8B),
       createMockTrack ''2'' (Some (Num 130)) (Some K9B),
       createMockTrack ''3'' (Some (Num 132)) (Some K10B)])) = [''1'', ''2'', ''3'']
   \<and> isComplete (findOptimalOrder
      [createMockTrack ''1'' (Some (Num 128)) (Some K8B),
       createMockTrack ''2'' (Some (Num 130)) (Some K9B),
       createMockTrack ''3'' (Some (Num 132)) (Some K10B)])
   \<and> map quality (transitions (findOptimalOrder
      [createMockTrack ''1'' (Some (Num 128)) (Some K8B),
       createMockTrack ''2'' (Some (Num 130)) (Some K9B),
       createMockTrack ''3'' (Some (Num 132)) (Some K10B)])) = [Excellent, Excellent]"
  by code_simp

lemma scenario_tempo_gap:
  "map id_track (orderedTracks (findOptimalOrder
      [createMockTrack ''1'' (Some (Num 128)) (Some K8B),
       createMockTrack ''2'' (Some (Num 150)) (Some K8B)]))
     = [''1'']
   \<and> map id_track (orphanTracks (findOptimalOrder
      [createMockTrack ''1'' (Some (Num 128)) (Some K8B),
       createMockTrack ''2'' (Some (Num 150)) (Some K8B)]))
     = [''2'']
   \<and> \<not> isComplete (findOptimalOrder
      [createMockTrack ''1'' (Some (Num 128)) (Some K8B),
       createMockTrack ''2'' (Some (Num 150)) (Some K8B)])"
  by code_simp

lemma scenario_camelot:
  "getCamelotDistance K8B K8A = Some 1 \<and> getCamelotDistance K8B K2B = Some 6
   \<and> getKeyCompatibilityType K12B K1B = Adjacent"
  by (simp add: getCamelotDistance_spec spec_distance_def ring_distance_def
      getKeyCompatibilityType_position)

text \<open>
  Rounding decides between paths whose exact scores are equal. The tempos 128, 130, 120
  and 132.1 (the last as its binary64 value) in one key: the paths from the third and the
  fourth seed run through the same tracks in opposite directions. The rounded sums,
  accumulated along each path, differ in the last place, and the later seed wins.
\<close>

lemma scenario_rounded_scores:
  "map id_track (orderedTracks (findOptimalOrder
      [createMockTrack ''1'' (Some (Num 128)) (Some K8B),
       createMockTrack ''2'' (Some (Num 130)) (Some K8B),
       createMockTrack ''3'' (Some (Num 120)) (Some K8B),
       createMockTrack ''4'' (Some (Num (4647855552934707 / 35184372088832))) (Some K8B)]))
     = [''4'', ''2'', ''1'', ''3'']"
  by code_simp

lemma scenario_rounded_scores_values:
  "round_double (1321 / 10) = Num (4647855552934707 / 35184372088832)
   \<and> calculatePathScore
      [createMockTrack ''3'' (Some (Num 120)) (Some K8B),
       createMockTrack ''1'' (Some (Num 128)) (Some K8B),
       createMockTrack ''2'' (Some (Num 130)) (Some K8B),
       createMockTrack ''4'' (Some (Num (4647855552934707 / 35184372088832))) (Some K8B)]
     = Num (5095400765904649 / 70368744177664)
   \<and> calculatePathScore
      [createMockTrack ''4'' (Some (Num (4647855552934707 / 35184372088832))) (Some K8B),
       createMockTrack ''2'' (Some (Num 130)) (Some K8B),
       createMockTrack ''1'' (Some (Num 128)) (Some K8B),
       createMockTrack ''3'' (Some (Num 120)) (Some K8B)]
     = Num (5095400765904648 / 70368744177664)"
  by code_simp

lemma scenario_rounded_scores_reference:
  "spec_order (filter isTrackAnalyzed
      [createMockTrack ''1'' (Some (Num 128)) (Some K8B),
       createMockTrack ''2'' (Some (Num 130)) (Some K8B),
       createMockTrack ''3'' (Some (Num 120)) (Some K8B),
       createMockTrack ''4'' (Some (Num (4647855552934707 / 35184372088832))) (Some K8B)])
     = Some (orderedTracks (findOptimalOrder
      [createMockTrack ''1'' (Some (Num 128)) (Some K8B),
       createMockTrack ''2'' (Some (Num 130)) (Some K8B),
       createMockTrack ''3'' (Some (Num 120)) (Some K8B),
       createMockTrack ''4'' (Some (Num (4647855552934707 / 35184372088832))) (Some K8B)]))"
  by (rule findOptimalOrder_reference)
    (simp_all add: createMockTrack_def isTrackAnalyzed_def finite_tempos_def bpm_number_def)

text \<open>
  Rounding at the thresholds. The tempos \<open>2 ^ (- 48) - 2 ^ (- 60)\<close> and \<open>20 + 2 ^ (- 48)\<close>
  are binary64 values whose exact difference exceeds 20; the difference the code computes
  is 20, and the pair is compatible. The tempos 6 and \<open>1 + 2 ^ (- 52)\<close> differ by less than
  5; the computed difference is 5, and the quality is \<open>Good\<close>.
\<close>

lemma scenario_rounded_difference:
  "round_double (4095 / 1152921504606846976) = Num (4095 / 1152921504606846976)
   \<and> round_double (5629499534213121 / 281474976710656) = Num (5629499534213121 / 281474976710656)
   \<and> abs_bpm_diff (createMockTrack ''1'' (Some (Num (4095 / 1152921504606846976))) (Some K8B))
        (createMockTrack ''2'' (Some (Num (5629499534213121 / 281474976710656))) (Some K8B))
     = Num 20
   \<and> isTransitionCompatible
        (createMockTrack ''1'' (Some (Num (4095 / 1152921504606846976))) (Some K8B))
        (createMockTrack ''2'' (Some (Num (5629499534213121 / 281474976710656))) (Some K8B))
   \<and> round_double (4503599627370497 / 4503599627370496) = Num (4503599627370497 / 4503599627370496)
   \<and> abs_bpm_diff (createMockTrack ''1'' (Some (Num 6)) (Some K8B))
        (createMockTrack ''2'' (Some (Num (4503599627370497 / 4503599627370496))) (Some K8B))
     = Num 5
   \<and> calculateTransitionQuality (createMockTrack ''1'' (Some (Num 6)) (Some K8B))
        (createMockTrack ''2'' (Some (Num (4503599627370497 / 4503599627370496))) (Some K8B))
     = Good"
  by code_simp

text \<open>
  The engine identifies a track by its id. Two tracks that share an id are outside the
  data model; the engine then treats the second as if it were the first: it is neither
  ordered nor orphaned.
\<close>

lemma shared_id_outside_data_model:
  "map bpm (orderedTracks (findOptimalOrder
      [createMockTrack ''1'' (Some (Num 128)) (Some K8B),
       createMockTrack ''1'' (Some (Num 130)) (Some K8B)]))
     = [Some (Num 128)]
   \<and> orphanTracks (findOptimalOrder
      [createMockTrack ''1'' (Some (Num 128)) (Some K8B),
       createMockTrack ''1'' (Some (Num 130)) (Some K8B)])
     = []
   \<and> \<not> isComplete (findOptimalOrder
      [createMockTrack ''1'' (Some (Num 128)) (Some K8B),
       createMockTrack ''1'' (Some (Num 130)) (Some K8B)])"
  by code_simp

end
